theory Spec2Isabelle
  imports Main "HOL-Library.Word"
begin

section \<open>The OnlyKey client (onlykey/client.py)\<close>

text \<open>
  A shallow embedding of the wire-protocol part of the client: report encoding
  (\<open>send_message\<close>), the chunked senders, the readers, label parsing, slot commands
  and the multi-part collection of \<open>sign\<close> and \<open>getpub\<close>.

  Python values are modelled as follows. Outgoing reports are lists of Python integers
  (\<open>int list\<close>); what the HID library delivers on a read is an array of uint8
  (\<open>8 word list\<close>); a Python 2 \<open>str\<close> is a list of bytes (\<open>string\<close>). Exceptions are
  values of type \<open>error\<close>, returned as \<open>Inl\<close>. Loops that may run forever are
  option-valued, with \<open>None\<close> for a run that never returns. Logging, printing and
  sleeping have no effect on the values modelled and are left out.
\<close>

subsection \<open>Constants and enumerations\<close>

definition MAX_INPUT_REPORT_SIZE :: nat where
  "MAX_INPUT_REPORT_SIZE = 64"

definition MAX_LARGE_PAYLOAD_SIZE :: nat where
  "MAX_LARGE_PAYLOAD_SIZE = 58"

definition MESSAGE_HEADER :: "int list" where
  "MESSAGE_HEADER = [255, 255, 255, 255]"

definition SLOTS_NAME :: "int \<rightharpoonup> string" where
  "SLOTS_NAME = map_of
    [(1, ''1a''), (2, ''2a''), (3, ''3a''), (4, ''4a''), (5, ''5a''), (6, ''6a''),
     (7, ''1b''), (8, ''2b''), (9, ''3b''), (10, ''4b''), (11, ''5b''), (12, ''6b''),
     (25, ''RSA Key 1''), (26, ''RSA Key 2''), (27, ''RSA Key 3''), (28, ''RSA Key 4''),
     (29, ''ECC Key 1''), (30, ''ECC Key 2''), (31, ''ECC Key 3''), (32, ''ECC Key 4''),
     (33, ''ECC Key 5''), (34, ''ECC Key 6''), (35, ''ECC Key 7''), (36, ''ECC Key 8''),
     (37, ''ECC Key 9''), (38, ''ECC Key 10''), (39, ''ECC Key 11''), (40, ''ECC Key 12''),
     (41, ''ECC Key 13''), (42, ''ECC Key 14''), (43, ''ECC Key 15''), (44, ''ECC Key 16''),
     (45, ''ECC Key 17''), (46, ''ECC Key 18''), (47, ''ECC Key 19''), (48, ''ECC Key 20''),
     (49, ''ECC Key 21''), (50, ''ECC Key 22''), (51, ''ECC Key 23''), (52, ''ECC Key 24''),
     (53, ''ECC Key 25''), (54, ''ECC Key 26''), (55, ''ECC Key 27''), (56, ''ECC Key 28''),
     (57, ''ECC Key 29''), (58, ''ECC Key 30''), (59, ''ECC Key 31''), (60, ''ECC Key 32'')]"

datatype Message =
    OKSETPIN | OKSETSDPIN | OKSETPDPIN | OKSETTIME | OKGETLABELS | OKSETSLOT
  | OKWIPESLOT | OKSETU2FPRIV | OKWIPEU2FPRIV | OKSETU2FCERT | OKWIPEU2FCERT
  | OKGETPUBKEY | OKSIGNCHALLENGE | OKWIPEPRIV | OKSETPRIV | OKDECRYPT | OKRESTORE

fun Message_value :: "Message \<Rightarrow> int" where
  "Message_value OKSETPIN = 225"
| "Message_value OKSETSDPIN = 226"
| "Message_value OKSETPDPIN = 227"
| "Message_value OKSETTIME = 228"
| "Message_value OKGETLABELS = 229"
| "Message_value OKSETSLOT = 230"
| "Message_value OKWIPESLOT = 231"
| "Message_value OKSETU2FPRIV = 232"
| "Message_value OKWIPEU2FPRIV = 233"
| "Message_value OKSETU2FCERT = 234"
| "Message_value OKWIPEU2FCERT = 235"
| "Message_value OKGETPUBKEY = 236"
| "Message_value OKSIGNCHALLENGE = 237"
| "Message_value OKWIPEPRIV = 238"
| "Message_value OKSETPRIV = 239"
| "Message_value OKDECRYPT = 240"
| "Message_value OKRESTORE = 241"

datatype MessageField =
    LABEL | URL | NEXTKEY1 | DELAY1 | USERNAME | NEXTKEY2 | DELAY2 | PASSWORD
  | NEXTKEY3 | DELAY3 | TFATYPE | TOTPKEY | YUBIAUTH | IDLETIMEOUT | WIPEMODE
  | KEYTYPESPEED | KEYLAYOUT

fun MessageField_value :: "MessageField \<Rightarrow> int" where
  "MessageField_value LABEL = 1"
| "MessageField_value URL = 15"
| "MessageField_value NEXTKEY1 = 16"
| "MessageField_value DELAY1 = 17"
| "MessageField_value USERNAME = 2"
| "MessageField_value NEXTKEY2 = 3"
| "MessageField_value DELAY2 = 4"
| "MessageField_value PASSWORD = 5"
| "MessageField_value NEXTKEY3 = 6"
| "MessageField_value DELAY3 = 7"
| "MessageField_value TFATYPE = 8"
| "MessageField_value TOTPKEY = 9"
| "MessageField_value YUBIAUTH = 10"
| "MessageField_value IDLETIMEOUT = 11"
| "MessageField_value WIPEMODE = 12"
| "MessageField_value KEYTYPESPEED = 13"
| "MessageField_value KEYLAYOUT = 14"

subsection \<open>Python values and exceptions\<close>

text \<open>
  The exceptions the modelled code can raise. \<open>Exception\<close> carries the message of a
  \<open>raise Exception(...)\<close> of the source; the others are raised by Python itself
  (\<open>ord\<close> of a string whose length is not 1, an index out of range, a missing
  dictionary key, \<open>chr\<close> out of range, an unset global, a failed \<open>assert\<close>,
  \<open>raw_input\<close> at the end of the input).
\<close>

datatype error =
    Exception string | TypeError | IndexError | KeyError | ValueError | NameError
  | AssertionError | EOFError

text \<open>
  What a caller may pass as \<open>payload\<close>: \<open>None\<close>, a \<open>str\<close>, a \<open>list\<close> of integers, or
  an object of another type (an integer, say), of which only the truth value matters.
\<close>

datatype payload = PNone | PStr string | PList "int list" | POther bool

fun truthy :: "payload \<Rightarrow> bool" where
  "truthy PNone = False"
| "truthy (PStr s) = (s \<noteq> [])"
| "truthy (PList xs) = (xs \<noteq> [])"
| "truthy (POther b) = b"

type_synonym uint8 = "8 word"

definition ord :: "char \<Rightarrow> int" where
  "ord c = of_char c"

text \<open>\<open>chr\<close> on a byte read from the device; on 0..255 Python's \<open>chr\<close> never raises.\<close>

definition chr :: "uint8 \<Rightarrow> char" where
  "chr b = char_of (unat b)"

text \<open>\<open>chr\<close> on a Python integer: ValueError outside \<open>range(256)\<close>.\<close>

definition chr_int :: "int \<Rightarrow> error + char" where
  "chr_int n = (if 0 \<le> n \<and> n < 256 then Inr (char_of n) else Inl ValueError)"

text \<open>
  \<open>''.join([chr(c) for c in xs])\<close>: the items in order, ValueError at the first one
  outside \<open>range(256)\<close>.
\<close>

fun chr_join :: "int list \<Rightarrow> error + string" where
  "chr_join [] = Inr []"
| "chr_join (c # cs) =
     (case chr_int c of
        Inl e \<Rightarrow> Inl e
      | Inr ch \<Rightarrow>
          (case chr_join cs of
             Inl e \<Rightarrow> Inl e
           | Inr s \<Rightarrow> Inr (ch # s)))"

text \<open>\<open>ord\<close> on a string: TypeError unless the string has exactly one character.\<close>

fun ord_str :: "string \<Rightarrow> error + int" where
  "ord_str [c] = Inr (ord c)"
| "ord_str s = Inl TypeError"

text \<open>\<open>s.split(sep)\<close> for a one-character separator: always at least one piece.\<close>

fun split :: "char \<Rightarrow> string \<Rightarrow> string list" where
  "split sep [] = [[]]"
| "split sep (c # cs) =
     (if c = sep then [] # split sep cs
      else (case split sep cs of
              [] \<Rightarrow> [[c]]
            | w # ws \<Rightarrow> (c # w) # ws))"

text \<open>The slice \<open>xs[a:b]\<close> for \<open>0 \<le> a \<le> b\<close>.\<close>

definition slice :: "'a list \<Rightarrow> nat \<Rightarrow> nat \<Rightarrow> 'a list" where
  "slice xs a b = take (b - a) (drop a xs)"

text \<open>\<open>xrange(start, stop, step)\<close> for a positive step.\<close>

function xrange :: "nat \<Rightarrow> nat \<Rightarrow> nat \<Rightarrow> nat list" where
  "xrange start stop step =
     (if 0 < step \<and> start < stop then start # xrange (start + step) stop step else [])"
  by pat_completeness auto
termination
  by (relation "measure (\<lambda>(start, stop, step). stop - start)") auto

declare xrange.simps [simp del]

subsection \<open>Slots\<close>

record Slot =
  number :: int
  label :: string
  name :: string

text \<open>\<open>Slot.__init__\<close>: the name is looked up in \<open>SLOTS_NAME\<close>, KeyError when absent.\<close>

definition Slot_init :: "int \<Rightarrow> string \<Rightarrow> error + Slot" where
  "Slot_init num lbl =
     (case SLOTS_NAME num of
        None \<Rightarrow> Inl KeyError
      | Some nm \<Rightarrow> Inr \<lparr>number = num, label = lbl, name = nm\<rparr>)"

subsection \<open>The client and its transport\<close>

text \<open>
  The state of an \<open>OnlyKey\<close> object with its HID device: the reports written so far, in
  order; what each future read of the device will deliver (\<open>incoming ok 0\<close> is the next
  one, the empty list a read that timed out); and the module global \<open>slotnum\<close>, unset
  until \<open>slot\<close> is called.
\<close>

record onlykey =
  written :: "int list list"
  incoming :: "nat \<Rightarrow> uint8 list"
  slotnum :: "int option"

definition hid_write :: "int list \<Rightarrow> onlykey \<Rightarrow> onlykey" where
  "hid_write raw_bytes ok = ok\<lparr>written := written ok @ [raw_bytes]\<rparr>"

text \<open>\<open>hid.read(n)\<close>: at most \<open>n\<close> bytes of the next report.\<close>

definition hid_read :: "nat \<Rightarrow> onlykey \<Rightarrow> uint8 list \<times> onlykey" where
  "hid_read n ok = (take n (incoming ok 0), ok\<lparr>incoming := (\<lambda>k. incoming ok (Suc k))\<rparr>)"

definition slot :: "int \<Rightarrow> onlykey \<Rightarrow> onlykey" where
  "slot s ok = ok\<lparr>slotnum := Some s\<rparr>"

subsection \<open>send_message\<close>

text \<open>The padding loop \<open>while len(raw_bytes) < MAX_INPUT_REPORT_SIZE: raw_bytes.append(0)\<close>.\<close>

function pad :: "int list \<Rightarrow> int list" where
  "pad raw_bytes =
     (if length raw_bytes < MAX_INPUT_REPORT_SIZE then pad (raw_bytes @ [0]) else raw_bytes)"
  by pat_completeness auto
termination
  by (relation "measure (\<lambda>raw_bytes. MAX_INPUT_REPORT_SIZE - length raw_bytes)") auto

declare pad.simps [simp del]

text \<open>
  The bytes of the report before padding: the header, then the message value, the slot
  id and the field value, each only when its argument is truthy (an enum member always
  is, a slot id when it is not 0).
\<close>

definition header_bytes :: "Message option \<Rightarrow> int option \<Rightarrow> MessageField option \<Rightarrow> int list" where
  "header_bytes msg slot_id message_field =
     MESSAGE_HEADER
     @ (case msg of Some m \<Rightarrow> [Message_value m] | None \<Rightarrow> [])
     @ (case slot_id of Some s \<Rightarrow> (if s \<noteq> 0 then [s] else []) | None \<Rightarrow> [])
     @ (case message_field of Some f \<Rightarrow> [MessageField_value f] | None \<Rightarrow> [])"

text \<open>
  For a list payload the argument of \<open>logging.debug\<close>,
  \<open>''.join([chr(c) for c in payload])\<close>, is evaluated before the bytes are appended:
  an item outside \<open>range(256)\<close> raises ValueError and nothing is written.
\<close>

definition send_message ::
  "payload \<Rightarrow> Message option \<Rightarrow> int option \<Rightarrow> MessageField option \<Rightarrow> onlykey \<Rightarrow> error + onlykey" where
  "send_message payload msg slot_id message_field ok =
     (let raw_bytes = header_bytes msg slot_id message_field in
      if truthy payload then
        (case payload of
           PStr s \<Rightarrow> Inr (hid_write (pad (raw_bytes @ map ord s)) ok)
         | PList xs \<Rightarrow>
             (case chr_join xs of
                Inl e \<Rightarrow> Inl e
              | Inr logged \<Rightarrow> Inr (hid_write (pad (raw_bytes @ xs)) ok))
         | _ \<Rightarrow> Inl (Exception ''`payload` must be either `str` or `list`''))
      else Inr (hid_write (pad raw_bytes) ok))"

subsection \<open>The chunked senders\<close>

text \<open>\<open>len\<close> of a payload; TypeError for a value that has no length.\<close>

fun payload_len :: "payload \<Rightarrow> error + nat" where
  "payload_len (PStr s) = Inr (length s)"
| "payload_len (PList xs) = Inr (length xs)"
| "payload_len p = Inl TypeError"

text \<open>
  \<open>[payload[x:x+width] for x in xrange(0, len(payload), step)]\<close>: the pieces of a
  string are strings, those of a list are lists.
\<close>

fun payload_chunks :: "nat \<Rightarrow> nat \<Rightarrow> payload \<Rightarrow> error + payload list" where
  "payload_chunks width step (PStr s) =
     Inr (map (\<lambda>x. PStr (slice s x (x + width))) (xrange 0 (length s) step))"
| "payload_chunks width step (PList xs) =
     Inr (map (\<lambda>x. PList (slice xs x (x + width))) (xrange 0 (length xs) step))"
| "payload_chunks width step p = Inl TypeError"

text \<open>The bytes a chunk appends: a list as it is, a string through \<open>ord\<close>.\<close>

fun chunk_bytes :: "payload \<Rightarrow> error + int list" where
  "chunk_bytes (PList xs) = Inr xs"
| "chunk_bytes (PStr s) = Inr (map ord s)"
| "chunk_bytes p = Inl TypeError"

text \<open>
  \<open>current_payload\<close> of \<open>send_large_message\<close>: 255 (not the last payload), or the length
  of a chunk shorter than 58, then the chunk.
\<close>

definition current_payload :: "payload \<Rightarrow> error + int list" where
  "current_payload chunk =
     (case payload_len chunk of
        Inl e \<Rightarrow> Inl e
      | Inr n \<Rightarrow>
          (case chunk_bytes chunk of
             Inl e \<Rightarrow> Inl e
           | Inr bs \<Rightarrow> Inr ((if n < 58 then [int n] else [255]) @ bs)))"

text \<open>\<open>current_payload\<close> of \<open>send_large_message2\<close>: the slot id first, chunks of 57.\<close>

definition current_payload2 :: "int \<Rightarrow> payload \<Rightarrow> error + int list" where
  "current_payload2 slot_id chunk =
     (case payload_len chunk of
        Inl e \<Rightarrow> Inl e
      | Inr n \<Rightarrow>
          (case chunk_bytes chunk of
             Inl e \<Rightarrow> Inl e
           | Inr bs \<Rightarrow> Inr ((if n < 57 then [slot_id, int n] else [slot_id, 255]) @ bs)))"

text \<open>The loop \<open>for chunk in chunks\<close>, one \<open>send_message\<close> for each chunk, in order.\<close>

fun send_chunks ::
  "(payload \<Rightarrow> error + int list) \<Rightarrow> payload list \<Rightarrow> Message option \<Rightarrow> onlykey \<Rightarrow> error + onlykey" where
  "send_chunks mk [] msg ok = Inr ok"
| "send_chunks mk (chunk # chunks) msg ok =
     (case mk chunk of
        Inl e \<Rightarrow> Inl e
      | Inr cp \<Rightarrow>
          (case send_message (PList cp) msg None None ok of
             Inl e \<Rightarrow> Inl e
           | Inr ok' \<Rightarrow> send_chunks mk chunks msg ok'))"

text \<open>The argument \<open>slot_id\<close> (default \<open>chr(101)\<close>) may be any object.\<close>

definition send_large_message ::
  "payload \<Rightarrow> Message option \<Rightarrow> 'a \<Rightarrow> onlykey \<Rightarrow> error + onlykey" where
  "send_large_message payload msg slot_id ok =
     (if msg = None then Inl (Exception ''Missing msg'')
      else (case payload_chunks MAX_LARGE_PAYLOAD_SIZE 58 payload of
              Inl e \<Rightarrow> Inl e
            | Inr chunks \<Rightarrow> send_chunks current_payload chunks msg ok))"

definition send_large_message2 ::
  "payload \<Rightarrow> Message option \<Rightarrow> int \<Rightarrow> onlykey \<Rightarrow> error + onlykey" where
  "send_large_message2 payload msg slot_id ok =
     (if msg = None then Inl (Exception ''Missing msg'')
      else (case payload_chunks (MAX_LARGE_PAYLOAD_SIZE - 1) 57 payload of
              Inl e \<Rightarrow> Inl e
            | Inr chunks \<Rightarrow> send_chunks (current_payload2 slot_id) chunks msg ok))"

subsection \<open>Reading\<close>

text \<open>\<open>read_bytes(n)\<close> with \<open>to_str=False\<close>: the raw list.\<close>

definition read_bytes :: "nat \<Rightarrow> onlykey \<Rightarrow> uint8 list \<times> onlykey" where
  "read_bytes n ok = hid_read n ok"

text \<open>\<open>read_bytes(n, to_str=True)\<close>: the bytes as a string.\<close>

definition read_bytes_str :: "nat \<Rightarrow> onlykey \<Rightarrow> string \<times> onlykey" where
  "read_bytes_str n ok = (let (out, ok') = hid_read n ok in (map chr out, ok'))"

definition read_string :: "onlykey \<Rightarrow> string \<times> onlykey" where
  "read_string ok =
     (let (out, ok') = read_bytes MAX_INPUT_REPORT_SIZE ok
      in (map chr (filter (\<lambda>item. item \<noteq> 0) out), ok'))"

subsection \<open>Labels\<close>

text \<open>
  The body of the loop of \<open>getlabels\<close> on the string just read: the slot it appends,
  \<open>None\<close> when the slot number is out of range, or the exception it raises.
\<close>

definition getlabels_slot :: "string \<Rightarrow> error + Slot option" where
  "getlabels_slot s =
     (case split CHR ''|'' s of
        [] \<Rightarrow> Inl IndexError
      | d0 # rest \<Rightarrow>
          (case ord_str d0 of
             Inl e \<Rightarrow> Inl e
           | Inr n \<Rightarrow>
               (let slot_number = (if n \<ge> 16 then n - 6 else n) in
                if 1 \<le> slot_number \<and> slot_number \<le> 12 then
                  (case rest of
                     [] \<Rightarrow> Inl IndexError
                   | d1 # ds \<Rightarrow> map_sum id Some (Slot_init slot_number d1))
                else Inr None)))"

text \<open>The same for \<open>getkeylabels\<close>: no remap, slots 25 to 60.\<close>

definition getkeylabels_slot :: "string \<Rightarrow> error + Slot option" where
  "getkeylabels_slot s =
     (case split CHR ''|'' s of
        [] \<Rightarrow> Inl IndexError
      | d0 # rest \<Rightarrow>
          (case ord_str d0 of
             Inl e \<Rightarrow> Inl e
           | Inr slot_number \<Rightarrow>
               (if 25 \<le> slot_number \<and> slot_number \<le> 60 then
                  (case rest of
                     [] \<Rightarrow> Inl IndexError
                   | d1 # ds \<Rightarrow> map_sum id Some (Slot_init slot_number d1))
                else Inr None)))"

text \<open>The loop \<open>for _ in range(n)\<close>: read a string, parse it, append the slot if any.\<close>

fun labels_loop ::
  "(string \<Rightarrow> error + Slot option) \<Rightarrow> nat \<Rightarrow> Slot list \<Rightarrow> onlykey \<Rightarrow> error + (Slot list \<times> onlykey)" where
  "labels_loop parse 0 slots ok = Inr (slots, ok)"
| "labels_loop parse (Suc n) slots ok =
     (let (s, ok') = read_string ok in
      case parse s of
        Inl e \<Rightarrow> Inl e
      | Inr None \<Rightarrow> labels_loop parse n slots ok'
      | Inr (Some sl) \<Rightarrow> labels_loop parse n (slots @ [sl]) ok')"

definition getlabels :: "onlykey \<Rightarrow> error + (Slot list \<times> onlykey)" where
  "getlabels ok =
     (case send_message PNone (Some OKGETLABELS) None None ok of
        Inl e \<Rightarrow> Inl e
      | Inr ok' \<Rightarrow> labels_loop getlabels_slot 12 [] ok')"

definition getkeylabels :: "onlykey \<Rightarrow> error + (Slot list \<times> onlykey)" where
  "getkeylabels ok =
     (case send_message PNone (Some OKGETLABELS) (Some 107) None ok of
        Inl e \<Rightarrow> Inl e
      | Inr ok' \<Rightarrow> labels_loop getkeylabels_slot 36 [] ok')"

subsection \<open>Slot commands\<close>

text \<open>\<open>for _ in xrange(n): print self.read_string()\<close>.\<close>

fun drain :: "nat \<Rightarrow> onlykey \<Rightarrow> onlykey" where
  "drain 0 ok = ok"
| "drain (Suc n) ok = drain n (snd (read_string ok))"

definition setslot :: "int \<Rightarrow> MessageField option \<Rightarrow> payload \<Rightarrow> onlykey \<Rightarrow> error + onlykey" where
  "setslot slot_number message_field val ok =
     (let slot_number' = (if slot_number \<ge> 10 then slot_number + 6 else slot_number) in
      case send_message val (Some OKSETSLOT) (Some slot_number') message_field ok of
        Inl e \<Rightarrow> Inl e
      | Inr ok' \<Rightarrow> Inr (drain 1 ok'))"

definition wipeslot :: "int \<Rightarrow> onlykey \<Rightarrow> error + onlykey" where
  "wipeslot slot_number ok =
     (case send_message PNone (Some OKWIPESLOT) (Some slot_number) None ok of
        Inl e \<Rightarrow> Inl e
      | Inr ok' \<Rightarrow> Inr (drain 8 ok'))"

subsection \<open>The challenge code\<close>

definition get_button :: "char \<Rightarrow> int" where
  "get_button byte = (let ibyte = ord byte in if ibyte < 6 then 1 else ibyte mod 5 + 1)"

text \<open>
  The challenge of \<open>sign\<close>: the digest of the payload, the assertion on its length, and
  the three buttons. The hash function of \<open>hashlib\<close> is a parameter.
\<close>

definition challenge :: "(string \<Rightarrow> string) \<Rightarrow> string \<Rightarrow> error + (int \<times> int \<times> int)" where
  "challenge sha256 payload =
     (let d = sha256 payload in
      if length d \<noteq> 32 then Inl AssertionError
      else Inr (get_button (d ! 0), get_button (d ! 15), get_button (d ! 31)))"

subsection \<open>Collecting a response of eight parts\<close>

text \<open>
  The first part: \<open>while part == '': part = self.read_bytes(64, to_str=True)\<close>. The loop
  has no bound; a run that never leaves it is \<open>None\<close>.
\<close>

partial_function (option) read_first :: "onlykey \<Rightarrow> (string \<times> onlykey) option" where
  "read_first ok =
     (let r = read_bytes_str 64 ok in
      if fst r = [] then read_first (snd r) else Some r)"

text \<open>
  A later part: \<open>for _ in xrange(n): part = self.read_bytes(64, to_str=True)\<close>, left
  when a read has 64 bytes. \<open>part\<close> is the value of the variable so far.
\<close>

fun read_part :: "nat \<Rightarrow> string \<Rightarrow> onlykey \<Rightarrow> string \<times> onlykey" where
  "read_part 0 part ok = (part, ok)"
| "read_part (Suc n) part ok =
     (let (part', ok') = read_bytes_str 64 ok in
      if length part' = 64 then (part', ok') else read_part n part' ok')"

text \<open>
  The reads of the eight parts, written out part by part in \<open>sign\<close> and in \<open>getpub\<close>; the
  parts are returned in order.
\<close>

definition read_parts :: "onlykey \<Rightarrow> (string list \<times> onlykey) option" where
  "read_parts ok =
     (case read_first ok of
        None \<Rightarrow> None
      | Some (p1, ok1) \<Rightarrow>
          (let (p2, ok2) = read_part 10 [] ok1;
               (p3, ok3) = read_part 10 [] ok2;
               (p4, ok4) = read_part 10 [] ok3;
               (p5, ok5) = read_part 10 [] ok4;
               (p6, ok6) = read_part 10 [] ok5;
               (p7, ok7) = read_part 10 [] ok6;
               (p8, ok8) = read_part 10 [] ok7
           in Some ([p1, p2, p3, p4, p5, p6, p7, p8], ok8)))"

text \<open>
  What \<open>raw_input()\<close> meets at the console: a line the operator enters, the end of
  the input (EOFError), or an operator who never answers, so that the call does not
  return.
\<close>

datatype console = Entered string | EndOfInput | NoInput

fun raw_input :: "console \<Rightarrow> (error + string) option" where
  "raw_input (Entered line) = Some (Inr line)"
| "raw_input EndOfInput = Some (Inl EOFError)"
| "raw_input NoInput = None"

text \<open>
  \<open>sign\<close>: one read to flush, the challenge (returned here, printed in the source), the
  chunked request for the slot in \<open>slotnum\<close>, the wait for the operator at
  \<open>raw_input()\<close>, then the eight parts. The loop \<open>while not empty\<close> after the flush
  starts from \<open>empty = 'a'\<close> and never runs.
\<close>

definition sign ::
  "(string \<Rightarrow> string) \<Rightarrow> console \<Rightarrow> string \<Rightarrow> onlykey
     \<Rightarrow> (error + ((int \<times> int \<times> int) \<times> string \<times> onlykey)) option" where
  "sign sha256 stdin SignatureHash ok =
     (let ok0 = snd (read_string ok) in
      case challenge sha256 SignatureHash of
        Inl e \<Rightarrow> Some (Inl e)
      | Inr b \<Rightarrow>
          (case slotnum ok0 of
             None \<Rightarrow> Some (Inl NameError)
           | Some sn \<Rightarrow>
               (case send_large_message2 (PStr SignatureHash) (Some OKSIGNCHALLENGE) sn ok0 of
                  Inl e \<Rightarrow> Some (Inl e)
                | Inr ok1 \<Rightarrow>
                    (case raw_input stdin of
                       None \<Rightarrow> None
                     | Some (Inl e) \<Rightarrow> Some (Inl e)
                     | Some (Inr line) \<Rightarrow>
                         (case read_parts ok1 of
                            None \<Rightarrow> None
                          | Some (parts, ok2) \<Rightarrow>
                              if parts ! 1 = [] then
                                Some (Inl (Exception ''failed to read signature from OnlyKey''))
                              else Some (Inr (b, concat parts, ok2)))))))"

definition getpub :: "onlykey \<Rightarrow> (error + (string \<times> onlykey)) option" where
  "getpub ok =
     (let ok0 = snd (read_string ok) in
      case slotnum ok0 of
        None \<Rightarrow> Some (Inl NameError)
      | Some sn \<Rightarrow>
          (case chr_int sn of
             Inl e \<Rightarrow> Some (Inl e)
           | Inr c \<Rightarrow>
               (case send_message (PStr [c]) (Some OKGETPUBKEY) None None ok0 of
                  Inl e \<Rightarrow> Some (Inl e)
                | Inr ok1 \<Rightarrow>
                    (case read_parts ok1 of
                       None \<Rightarrow> None
                     | Some (parts, ok2) \<Rightarrow>
                         if parts ! 1 = [] then
                           Some (Inl (Exception ''failed to read public RSA N from OnlyKey''))
                         else Some (Inr (concat parts, ok2))))))"

subsection \<open>Devices for concrete runs\<close>

text \<open>
  A device that delivers the given reports, one for each read, and then only reads that
  time out; and a client connected to it, nothing written yet.
\<close>

definition reports_of :: "uint8 list list \<Rightarrow> nat \<Rightarrow> uint8 list" where
  "reports_of rs k = (if k < length rs then rs ! k else [])"

definition device :: "uint8 list list \<Rightarrow> int option \<Rightarrow> onlykey" where
  "device rs sn = \<lparr>written = [], incoming = reports_of rs, slotnum = sn\<rparr>"

text \<open>A digest function for concrete runs: 32 bytes, each of them 7.\<close>

definition sevens :: "string \<Rightarrow> string" where
  "sevens payload = replicate 32 (CHR 0x07)"

subsection \<open>The specification's wording\<close>

text \<open>
  What the specification says \<open>readOne\<close> returns: the report with only its trailing
  run of zero bytes removed.
\<close>

definition strip_trailing_zeros :: "uint8 list \<Rightarrow> uint8 list" where
  "strip_trailing_zeros report = rev (dropWhile (\<lambda>b. b = 0) (rev report))"

text \<open>
  What the specification says a label is: the entire remainder of the response after
  its first \<open>|\<close>.
\<close>

definition after_bar :: "string \<Rightarrow> string" where
  "after_bar s = tl (dropWhile (\<lambda>c. c \<noteq> CHR ''|'') s)"

section \<open>Basic facts\<close>

lemma pad_eq: "pad raw_bytes = raw_bytes @ replicate (64 - length raw_bytes) 0"
proof (induction raw_bytes rule: pad.induct)
  case (1 raw_bytes)
  show ?case
  proof (cases "length raw_bytes < 64")
    case True
    then have "pad raw_bytes = pad (raw_bytes @ [0])"
      by (subst pad.simps) (simp add: MAX_INPUT_REPORT_SIZE_def)
    also have "\<dots> = (raw_bytes @ [0]) @ replicate (64 - length (raw_bytes @ [0])) 0"
      using "1" True by (simp add: MAX_INPUT_REPORT_SIZE_def)
    also have "\<dots> = raw_bytes @ replicate (Suc (63 - length raw_bytes)) 0"
      by simp
    also have "Suc (63 - length raw_bytes) = 64 - length raw_bytes"
      using True by simp
    finally show ?thesis .
  next
    case False
    then show ?thesis
      by (subst pad.simps) (simp add: MAX_INPUT_REPORT_SIZE_def)
  qed
qed

lemma chr_join_in_range:
  "\<forall>c\<in>set xs. 0 \<le> c \<and> c < 256 \<Longrightarrow> \<exists>s. chr_join xs = Inr s"
  by (induction xs) (auto simp: chr_int_def)

lemma chr_join_out_of_range:
  "\<not> (\<forall>c\<in>set xs. 0 \<le> c \<and> c < 256) \<Longrightarrow> chr_join xs = Inl ValueError"
  by (induction xs) (auto simp: chr_int_def split: sum.splits)

lemma ord_bounds: "0 \<le> ord c \<and> ord c < 256"
proof -
  have "(of_char c :: nat) < 256"
    by (rule nat_of_char_less_256)
  then have "int (of_char c) < 256"
    by simp
  then have "(of_char c :: int) < 256"
    by (simp only: of_nat_of_char)
  moreover have "0 \<le> int (of_char c)"
    by simp
  then have "0 \<le> (of_char c :: int)"
    by (simp only: of_nat_of_char)
  ultimately show ?thesis
    by (simp add: ord_def)
qed

lemma send_message_bytes:
  assumes "chunk_bytes payload = Inr bs" and "\<forall>c\<in>set bs. 0 \<le> c \<and> c < 256"
  shows "send_message payload msg slot_id message_field ok =
           Inr (ok\<lparr>written := written ok @ [pad (header_bytes msg slot_id message_field @ bs)]\<rparr>)"
proof (cases payload)
  case (PList xs)
  then obtain logged where "chr_join xs = Inr logged"
    using assms chr_join_in_range [of xs] by auto
  then show ?thesis
    using PList assms by (auto simp: send_message_def hid_write_def Let_def)
qed (use assms in \<open>auto simp: send_message_def hid_write_def Let_def\<close>)

lemma send_message_str:
  "send_message (PStr s) msg slot_id message_field ok =
     Inr (ok\<lparr>written := written ok @ [pad (header_bytes msg slot_id message_field @ map ord s)]\<rparr>)"
  by (rule send_message_bytes) (simp_all add: ord_bounds)

lemma send_message_falsy:
  "\<not> truthy payload \<Longrightarrow> send_message payload msg slot_id message_field ok =
     Inr (ok\<lparr>written := written ok @ [pad (header_bytes msg slot_id message_field)]\<rparr>)"
  by (simp add: send_message_def hid_write_def Let_def)

lemma read_string_written: "written (snd (read_string ok)) = written ok"
  by (simp add: read_string_def read_bytes_def hid_read_def split_def Let_def)

lemma drain_written: "written (drain n ok) = written ok"
  by (induction n arbitrary: ok) (simp_all add: read_string_written)

lemma ord_chr: "ord (chr w) = uint w"
proof -
  have "(of_char (char_of (unat w)) :: nat) = unat w mod 256"
    by (simp only: of_char_of)
  moreover have "unat w < 256"
    using unsigned_less [of w, where 'a = nat] by simp
  ultimately have "(of_char (char_of (unat w)) :: nat) = unat w"
    by simp
  then have "int (of_char (char_of (unat w))) = int (unat w)"
    by simp
  then have "(of_char (char_of (unat w)) :: int) = int (unat w)"
    by (simp only: of_nat_of_char)
  then show ?thesis
    unfolding ord_def chr_def by simp
qed

lemma get_button_range: "1 \<le> get_button c \<and> get_button c \<le> 5"
  unfolding get_button_def Let_def by auto

lemma get_button_vectors:
  "get_button (CHR 0x03) = 1" "get_button (CHR 0x0A) = 1" "get_button (CHR 0x07) = 3"
  by (simp_all add: get_button_def ord_def)

lemma xrange_Cons: "0 < step \<Longrightarrow> start < stop \<Longrightarrow>
   xrange start stop step = start # xrange (start + step) stop step"
  by (subst xrange.simps) simp

lemma xrange_Nil: "\<not> start < stop \<Longrightarrow> xrange start stop step = []"
  by (subst xrange.simps) simp

lemma send_chunks_written:
  assumes "\<forall>c \<in> set cs. mk c = Inr (f c) \<and> (\<forall>b\<in>set (f c). 0 \<le> b \<and> b < 256)"
  shows "send_chunks mk cs msg ok =
    Inr (ok\<lparr>written := written ok @ map (\<lambda>c. pad (header_bytes msg None None @ f c)) cs\<rparr>)"
  using assms
proof (induction cs arbitrary: ok)
  case Nil
  show ?case by simp
next
  case (Cons c cs)
  have "send_message (PList (f c)) msg None None ok =
      Inr (ok\<lparr>written := written ok @ [pad (header_bytes msg None None @ f c)]\<rparr>)"
    using Cons.prems by (intro send_message_bytes) simp_all
  then show ?case
    using Cons by simp
qed

section \<open>The report encoder\<close>

text \<open>
  C1, as the code has it. \<open>send_message\<close> has no check of the size: when the header
  bytes and the bytes of a payload (the characters of a string, or the items of a list
  of integers in \<open>range(256)\<close>) together are longer than 64 bytes it raises nothing,
  and hands the whole sequence, unpadded and longer than 64 bytes, to the write of the
  transport.
\<close>

theorem send_message_no_size_check:
  assumes "payload = PStr s \<and> bs = map of_char s
           \<or> payload = PList bs \<and> (\<forall>c\<in>set bs. 0 \<le> c \<and> c < 256)"
    and "hdr = [255, 255, 255, 255]
           @ (case msg of None \<Rightarrow> [] | Some m \<Rightarrow> [Message_value m])
           @ (case slot_id of None \<Rightarrow> [] | Some sl \<Rightarrow> if sl = 0 then [] else [sl])
           @ (case message_field of None \<Rightarrow> [] | Some f \<Rightarrow> [MessageField_value f])"
    and "64 < length hdr + length bs"
  shows "send_message payload msg slot_id message_field ok =
           Inr (ok\<lparr>written := written ok @ [hdr @ bs]\<rparr>)"
proof -
  have b: "0 \<le> (of_char c :: int) \<and> (of_char c :: int) < 256" for c
    using ord_bounds [of c] by (simp add: ord_def)
  have "chunk_bytes payload = Inr bs"
    using assms(1) by (auto simp: ord_def)
  moreover have "\<forall>c\<in>set bs. 0 \<le> c \<and> c < 256"
    using assms(1) b by auto
  moreover have "header_bytes msg slot_id message_field = hdr"
    by (simp add: assms(2) header_bytes_def MESSAGE_HEADER_def split: option.splits)
  ultimately show ?thesis
    using assms(3) by (simp add: send_message_bytes pad_eq)
qed

theorem send_message_no_size_check_witness:
  "written (projr (send_message (PList (replicate 61 1)) (Some OKSETPIN) None None (device [] None)))
     = [[255, 255, 255, 255, 225] @ replicate 61 1]"
  using send_message_no_size_check
    [of "PList (replicate 61 1)" "[]" "replicate 61 1" "[255, 255, 255, 255, 225]"
        "Some OKSETPIN" None None "device [] None"]
  by (simp add: device_def)

text \<open>
  C1 as the specification states it fails: a list payload of 61 bytes with a message
  kind encodes to 66 bytes, and \<open>send_message\<close> returns without an error, having
  written one report of 66 bytes.
\<close>

theorem send_message_oversize_counterexample:
  "length (header_bytes (Some OKSETPIN) None None) + length (replicate 61 (1::int)) = 66
   \<and> \<not> isl (send_message (PList (replicate 61 1)) (Some OKSETPIN) None None (device [] None))
   \<and> map length (written (projr
        (send_message (PList (replicate 61 1)) (Some OKSETPIN) None None (device [] None)))) = [66]"
  by (simp add: send_message_bytes pad_eq header_bytes_def MESSAGE_HEADER_def device_def)

section \<open>The challenge code\<close>

text \<open>
  C2. The challenge is a function of the payload alone: with a digest of 32 bytes it is
  the triple of the digits of the digest bytes at offsets 0, 15 and 31, where a byte
  \<open>b\<close> gives 1 when \<open>b < 6\<close> and \<open>b mod 5 + 1\<close> otherwise; every digit lies between 1
  and 5; the bytes 3, 10 and 7 give 1, 1 and 3.
\<close>

theorem challenge_digits:
  assumes "length (sha256 payload) = 32"
  shows "challenge sha256 payload =
           Inr (let d = sha256 payload; digit = (\<lambda>b. if b < 6 then 1 else b mod 5 + 1)
                in (digit (ord (d ! 0)), digit (ord (d ! 15)), digit (ord (d ! 31))))
         \<and> (\<forall>c. 1 \<le> get_button c \<and> get_button c \<le> 5)
         \<and> get_button (CHR 0x03) = 1 \<and> get_button (CHR 0x0A) = 1 \<and> get_button (CHR 0x07) = 3"
proof -
  have "challenge sha256 payload =
           Inr (let d = sha256 payload; digit = (\<lambda>b. if b < 6 then 1 else b mod 5 + 1)
                in (digit (ord (d ! 0)), digit (ord (d ! 15)), digit (ord (d ! 31))))"
    using assms by (simp add: challenge_def get_button_def Let_def)
  then show ?thesis
    using get_button_range get_button_vectors by blast
qed

theorem challenge_digits_witness:
  "length (sevens ''abc'') = 32 \<and> challenge sevens ''abc'' = Inr (3, 3, 3)"
  using challenge_digits [of sevens "''abc''"]
  by (simp add: sevens_def ord_def Let_def)

section \<open>Slot commands\<close>

text \<open>
  C3 at slot 10. \<open>wipeslot\<close> writes the slot number it is given, 10, as the slot id of
  its report; \<open>setslot\<close> writes 16 for the same slot.
\<close>

theorem wipeslot_sends_slot_unmapped:
  "map_sum id written (wipeslot 10 ok)
     = Inr (written ok @ [[255, 255, 255, 255, 231, 10] @ replicate 58 0])
   \<and> map_sum id written (setslot 10 None PNone ok)
     = Inr (written ok @ [[255, 255, 255, 255, 230, 16] @ replicate 58 0])"
  by (simp add: wipeslot_def setslot_def send_message_falsy pad_eq header_bytes_def
      MESSAGE_HEADER_def drain_written read_string_written)

section \<open>The chunked sender\<close>

text \<open>
  C9. The argument \<open>slot_id\<close> of \<open>send_large_message\<close> has no effect: with the same
  payload, message kind and client, any two values of \<open>slot_id\<close>, of any types, give
  the same result, hence the same reports written.
\<close>

theorem send_large_message_ignores_slot_id:
  "send_large_message payload msg (slot_id1 :: 'a) ok
     = send_large_message payload msg (slot_id2 :: 'b) ok"
  by (simp add: send_large_message_def)

theorem send_large_message_ignores_slot_id_witness:
  "send_large_message (PList [1, 2, 3]) (Some OKSETPRIV) ''e'' (device [] None)
     = send_large_message (PList [1, 2, 3]) (Some OKSETPRIV) (101 :: int) (device [] None)"
  by (rule send_large_message_ignores_slot_id)

section \<open>Reading one report\<close>

lemma filter_strip_trailing_zeros:
  "filter (\<lambda>b. b \<noteq> 0) (strip_trailing_zeros report) = filter (\<lambda>b. b \<noteq> 0) report"
proof -
  have "filter (\<lambda>b. b \<noteq> (0::uint8)) (dropWhile (\<lambda>b. b = 0) xs) = filter (\<lambda>b. b \<noteq> 0) xs" for xs
    by (induction xs) auto
  then have "filter (\<lambda>b. b \<noteq> 0) (rev (dropWhile (\<lambda>b. b = 0) (rev report)))
               = filter (\<lambda>b. b \<noteq> 0) (rev (rev report))"
    by (simp only: rev_filter [symmetric])
  then show ?thesis
    by (simp add: strip_trailing_zeros_def)
qed

lemma read_string_fst:
  "fst (read_string ok) = map chr (filter (\<lambda>b. b \<noteq> 0) (take 64 (incoming ok 0)))"
  by (simp add: read_string_def read_bytes_def hid_read_def MAX_INPUT_REPORT_SIZE_def)

lemma read_string_snd:
  "snd (read_string ok) = ok\<lparr>incoming := (\<lambda>k. incoming ok (Suc k))\<rparr>"
  by (simp add: read_string_def read_bytes_def hid_read_def)

text \<open>
  C5, as the code has it. \<open>read_string\<close> returns the report without any of its zero
  bytes: the report with its trailing zero bytes removed and the zero bytes inside it
  removed as well, the other bytes in order. When no zero byte comes before the last
  non-zero byte, that is the report with only the trailing zero bytes removed.
\<close>

theorem read_string_removes_every_zero:
  "fst (read_string ok)
     = map chr (filter (\<lambda>b. b \<noteq> 0) (strip_trailing_zeros (take 64 (incoming ok 0))))
   \<and> (0 \<notin> set (strip_trailing_zeros (take 64 (incoming ok 0))) \<longrightarrow>
        fst (read_string ok) = map chr (strip_trailing_zeros (take 64 (incoming ok 0))))"
proof -
  have a: "fst (read_string ok)
     = map chr (filter (\<lambda>b. b \<noteq> 0) (strip_trailing_zeros (take 64 (incoming ok 0))))"
    by (simp only: read_string_fst filter_strip_trailing_zeros)
  have "filter (\<lambda>b. b \<noteq> 0) xs = xs" if "0 \<notin> set xs" for xs :: "uint8 list"
    using that by (induction xs) auto
  with a show ?thesis
    by simp
qed

theorem read_string_removes_every_zero_witness:
  "strip_trailing_zeros (take 64 (incoming (device [[65, 66, 0, 0]] None) 0)) = [65, 66]
   \<and> fst (read_string (device [[65, 66, 0, 0]] None)) = map chr [65, 66]"
  using read_string_removes_every_zero [of "device [[65, 66, 0, 0]] None"]
  by (simp add: device_def reports_of_def strip_trailing_zeros_def)

text \<open>
  C5 as the specification states it fails on the report 65, 0, 66, 0, 0: with only the
  trailing zero bytes removed it is the three bytes 65, 0, 66, and \<open>read_string\<close>
  returns the two characters of 65 and 66.
\<close>

theorem read_string_interior_zero_counterexample:
  "strip_trailing_zeros (take 64 (incoming (device [[65, 0, 66, 0, 0]] None) 0)) = [65, 0, 66]
   \<and> fst (read_string (device [[65, 0, 66, 0, 0]] None)) = map chr [65, 66]
   \<and> fst (read_string (device [[65, 0, 66, 0, 0]] None))
       \<noteq> map chr (strip_trailing_zeros (take 64 (incoming (device [[65, 0, 66, 0, 0]] None) 0)))"
  by (simp add: read_string_fst device_def reports_of_def strip_trailing_zeros_def)

section \<open>Label responses\<close>

lemma split_takeWhile:
  "split sep s = takeWhile (\<lambda>c. c \<noteq> sep) s #
     (if sep \<in> set s then split sep (tl (dropWhile (\<lambda>c. c \<noteq> sep) s)) else [])"
  by (induction s) (auto split: list.splits)

lemma split_not_Nil: "split sep s \<noteq> []"
  using split_takeWhile [of sep s] by simp

lemma split_second:
  assumes "split sep s = d0 # d1 # ds"
  shows "d1 = takeWhile (\<lambda>c. c \<noteq> sep) (tl (dropWhile (\<lambda>c. c \<noteq> sep) s))"
proof -
  have "sep \<in> set s"
    using assms split_takeWhile [of sep s] by (auto split: if_splits)
  then have "d1 # ds = split sep (tl (dropWhile (\<lambda>c. c \<noteq> sep) s))"
    using assms split_takeWhile [of sep s] by simp
  then show ?thesis
    using split_takeWhile [of sep "tl (dropWhile (\<lambda>c. c \<noteq> sep) s)"] by simp
qed

lemma Slot_init_label: "Slot_init n l = Inr sl \<Longrightarrow> label sl = l \<and> number sl = n"
  by (auto simp: Slot_init_def split: option.splits)

lemma getlabels_slot_label:
  assumes "getlabels_slot s = Inr (Some sl)"
  shows "label sl = takeWhile (\<lambda>c. c \<noteq> CHR ''|'') (after_bar s)"
proof -
  from assms obtain d0 d1 ds n where sp: "split CHR ''|'' s = d0 # d1 # ds"
    and "Slot_init n d1 = Inr sl"
    by (auto simp: getlabels_slot_def Let_def map_sum_def split: list.splits sum.splits if_splits)
  then show ?thesis
    using split_second [OF sp] Slot_init_label by (simp add: after_bar_def)
qed

lemma getkeylabels_slot_label:
  assumes "getkeylabels_slot s = Inr (Some sl)"
  shows "label sl = takeWhile (\<lambda>c. c \<noteq> CHR ''|'') (after_bar s)"
proof -
  from assms obtain d0 d1 ds n where sp: "split CHR ''|'' s = d0 # d1 # ds"
    and "Slot_init n d1 = Inr sl"
    by (auto simp: getkeylabels_slot_def Let_def map_sum_def split: list.splits sum.splits if_splits)
  then show ?thesis
    using split_second [OF sp] Slot_init_label by (simp add: after_bar_def)
qed

lemma getlabels_slot_two_bars:
  "getlabels_slot (CHR 0x01 # ''|a|b'') = Inr (Some \<lparr>number = 1, label = ''a'', name = ''1a''\<rparr>)"
  by (simp add: getlabels_slot_def ord_def Slot_init_def SLOTS_NAME_def)

lemma getkeylabels_slot_two_bars:
  "getkeylabels_slot (CHR 0x19 # ''|a|b'')
     = Inr (Some \<lparr>number = 25, label = ''a'', name = ''RSA Key 1''\<rparr>)"
  by (simp add: getkeylabels_slot_def ord_def Slot_init_def SLOTS_NAME_def)

text \<open>
  C8, as the code has it. When \<open>getlabels\<close> or \<open>getkeylabels\<close> parses a response into a
  Slot, the label is the part of the remainder after the first \<open>|\<close> that comes before
  the next \<open>|\<close>: the entire remainder only when the remainder has no \<open>|\<close>.
\<close>

theorem label_is_first_segment:
  "(getlabels_slot s = Inr (Some sl) \<longrightarrow>
      label sl = takeWhile (\<lambda>c. c \<noteq> CHR ''|'') (after_bar s))
   \<and> (getkeylabels_slot s' = Inr (Some sl') \<longrightarrow>
      label sl' = takeWhile (\<lambda>c. c \<noteq> CHR ''|'') (after_bar s'))"
  using getlabels_slot_label getkeylabels_slot_label by blast

theorem label_is_first_segment_witness:
  "getlabels_slot (CHR 0x01 # ''|a|b'') = Inr (Some \<lparr>number = 1, label = ''a'', name = ''1a''\<rparr>)
   \<and> getkeylabels_slot (CHR 0x19 # ''|a|b'')
       = Inr (Some \<lparr>number = 25, label = ''a'', name = ''RSA Key 1''\<rparr>)
   \<and> takeWhile (\<lambda>c. c \<noteq> CHR ''|'') (after_bar (CHR 0x01 # ''|a|b'')) = ''a''
   \<and> takeWhile (\<lambda>c. c \<noteq> CHR ''|'') (after_bar (CHR 0x19 # ''|a|b'')) = ''a''"
  using label_is_first_segment
      [of "CHR 0x01 # ''|a|b''" "\<lparr>number = 1, label = ''a'', name = ''1a''\<rparr>"
          "CHR 0x19 # ''|a|b''" "\<lparr>number = 25, label = ''a'', name = ''RSA Key 1''\<rparr>"]
    getlabels_slot_two_bars getkeylabels_slot_two_bars
  by (simp add: after_bar_def)

text \<open>
  C8 as the specification states it fails on a response whose label has a \<open>|\<close>: for
  slot 1 (and key slot 25) followed by \<open>|a|b\<close> the remainder after the first \<open>|\<close> is
  \<open>a|b\<close>, and the label parsed is \<open>a\<close>.
\<close>

theorem label_with_bar_counterexample:
  "CHR ''|'' \<in> set (CHR 0x01 # ''|a|b'')
   \<and> after_bar (CHR 0x01 # ''|a|b'') = ''a|b''
   \<and> map_sum id (map_option label) (getlabels_slot (CHR 0x01 # ''|a|b'')) = Inr (Some ''a'')
   \<and> after_bar (CHR 0x19 # ''|a|b'') = ''a|b''
   \<and> map_sum id (map_option label) (getkeylabels_slot (CHR 0x19 # ''|a|b'')) = Inr (Some ''a'')"
  by (simp add: getlabels_slot_two_bars getkeylabels_slot_two_bars after_bar_def)

section \<open>The slot-number remap\<close>

lemma ord_bar: "ord (CHR ''|'') = 124"
  by (simp add: ord_def)

lemma setslot_written:
  assumes "10 \<le> s" and "val \<noteq> POther True"
    and "\<forall>xs. val = PList xs \<longrightarrow> (\<forall>c\<in>set xs. 0 \<le> c \<and> c < 256)"
  shows "\<exists>bs. map_sum id written (setslot s message_field val ok) =
     Inr (written ok @ [pad (header_bytes (Some OKSETSLOT) (Some (s + 6)) message_field @ bs)])"
proof (cases "truthy val")
  case False
  then have "map_sum id written (setslot s message_field val ok) =
     Inr (written ok @ [pad (header_bytes (Some OKSETSLOT) (Some (s + 6)) message_field @ [])])"
    using assms(1) by (simp add: setslot_def send_message_falsy read_string_written)
  then show ?thesis
    by blast
next
  case True
  then obtain bs where "chunk_bytes val = Inr bs" and "\<forall>c\<in>set bs. 0 \<le> c \<and> c < 256"
    using assms(2,3) ord_bounds by (cases val) auto
  then have "map_sum id written (setslot s message_field val ok) =
     Inr (written ok @ [pad (header_bytes (Some OKSETSLOT) (Some (s + 6)) message_field @ bs)])"
    using assms(1) by (simp add: setslot_def send_message_bytes read_string_written)
  then show ?thesis
    by blast
qed

lemma getlabels_slot_remapped:
  assumes "16 \<le> uint b" and "uint b \<le> 18"
  shows "map_sum id (map_option number) (getlabels_slot (chr b # CHR ''|'' # lbl))
           = Inr (Some (uint b - 6))"
proof -
  have "ord (chr b) \<noteq> ord (CHR ''|'')"
    using assms by (simp add: ord_chr ord_bar)
  then have ne: "chr b \<noteq> CHR ''|''"
    by auto
  obtain d1 ds where sp: "split CHR ''|'' lbl = d1 # ds"
    using split_not_Nil [of "CHR ''|''" lbl] by (cases "split CHR ''|'' lbl") auto
  have "uint b - 6 = 10 \<or> uint b - 6 = 11 \<or> uint b - 6 = 12"
    using assms by auto
  then obtain nm where "SLOTS_NAME (uint b - 6) = Some nm"
    by (auto simp: SLOTS_NAME_def)
  then show ?thesis
    using ne sp assms by (simp add: getlabels_slot_def ord_chr Slot_init_def)
qed

text \<open>
  C6. For a short-form slot \<open>s\<close> from 10 to 12, \<open>setslot\<close> writes a report whose slot
  id, after the header and the message kind, is \<open>s + 6\<close>, whatever the field and for
  every value that \<open>send_message\<close> accepts (\<open>None\<close>, a string, a list of integers in
  \<open>range(256)\<close>); and \<open>getlabels\<close> parses a label response whose first byte is
  \<open>s + 6\<close> into a Slot of number \<open>s\<close>. At 10 the wire value is 16, and 16 parses back
  to 10.
\<close>

theorem slot_remap_roundtrip:
  assumes "10 \<le> s" and "s \<le> 12" and "uint b = s + 6"
    and "val \<noteq> POther True"
    and "\<forall>xs. val = PList xs \<longrightarrow> (\<forall>c\<in>set xs. 0 \<le> c \<and> c < 256)"
  shows "(\<exists>rest. map_sum id written (setslot s message_field val ok)
            = Inr (written ok @ [[255, 255, 255, 255, 230, s + 6] @ rest]))
         \<and> map_sum id (map_option number) (getlabels_slot (chr b # CHR ''|'' # lbl)) = Inr (Some s)"
proof -
  have "header_bytes (Some OKSETSLOT) (Some (s + 6)) message_field
          = [255, 255, 255, 255, 230, s + 6]
            @ (case message_field of Some f \<Rightarrow> [MessageField_value f] | None \<Rightarrow> [])"
    using assms(1) by (simp add: header_bytes_def MESSAGE_HEADER_def)
  moreover obtain bs where "map_sum id written (setslot s message_field val ok) =
     Inr (written ok @ [pad (header_bytes (Some OKSETSLOT) (Some (s + 6)) message_field @ bs)])"
    using setslot_written [OF assms(1) assms(4) assms(5), of message_field ok] by blast
  ultimately have "\<exists>rest. map_sum id written (setslot s message_field val ok)
            = Inr (written ok @ [[255, 255, 255, 255, 230, s + 6] @ rest])"
    by (simp add: pad_eq)
  moreover have "map_sum id (map_option number) (getlabels_slot (chr b # CHR ''|'' # lbl))
                   = Inr (Some s)"
    using getlabels_slot_remapped [of b lbl] assms by simp
  ultimately show ?thesis
    by blast
qed

theorem slot_remap_roundtrip_witness:
  "map_sum id written (setslot 10 (Some LABEL) (PStr ''x'') (device [] None))
     = Inr [[255, 255, 255, 255, 230, 16, 1, 120] @ replicate 56 0]
   \<and> map_sum id (map_option number) (getlabels_slot (chr 16 # ''|mail'')) = Inr (Some 10)"
proof -
  have "map_sum id written (setslot 10 (Some LABEL) (PStr ''x'') (device [] None))
     = Inr [[255, 255, 255, 255, 230, 16, 1, 120] @ replicate 56 0]"
    by (simp add: setslot_def send_message_str pad_eq header_bytes_def
      MESSAGE_HEADER_def read_string_written device_def ord_def)
  then show ?thesis
    using slot_remap_roundtrip
      [of 10 16 "PStr ''x''" "Some LABEL" "device [] None" "''mail''"]
    by simp
qed

section \<open>getlabels\<close>

lemma ord_str_Inr_iff: "(\<not> isl (ord_str d)) = (length d = 1)"
  by (cases d rule: ord_str.cases) auto

lemma ord_str_single: "length d = 1 \<Longrightarrow> ord_str d = Inr (ord (hd d))"
  by (cases d rule: ord_str.cases) auto

lemma Slot_init_in_range: "1 \<le> n \<Longrightarrow> n \<le> 12 \<Longrightarrow> \<not> isl (Slot_init n l)"
proof -
  assume "1 \<le> n" "n \<le> 12"
  then have "n \<in> set [1..12]"
    by simp
  also have "set [1..12] = {1, 2, 3, 4, 5, 6, 7, 8, 9, 10, 11, 12 :: int}"
    by code_simp
  finally obtain nm where "SLOTS_NAME n = Some nm"
    by (auto simp: SLOTS_NAME_def)
  then show ?thesis
    by (simp add: Slot_init_def)
qed

lemma getlabels_slot_ok_iff:
  "(\<not> isl (getlabels_slot s)) =
     (length (takeWhile (\<lambda>c. c \<noteq> CHR ''|'') s) = 1
      \<and> (CHR ''|'' \<notin> set s \<longrightarrow>
           \<not> (1 \<le> (if 16 \<le> ord (hd s) then ord (hd s) - 6 else ord (hd s))
              \<and> (if 16 \<le> ord (hd s) then ord (hd s) - 6 else ord (hd s)) \<le> 12)))"
proof (cases "length (takeWhile (\<lambda>c. c \<noteq> CHR ''|'') s) = 1")
  case False
  then have "isl (ord_str (takeWhile (\<lambda>c. c \<noteq> CHR ''|'') s))"
    using ord_str_Inr_iff by blast
  then obtain e where "ord_str (takeWhile (\<lambda>c. c \<noteq> CHR ''|'') s) = Inl e"
    by (cases "ord_str (takeWhile (\<lambda>c. c \<noteq> CHR ''|'') s)") auto
  then have "isl (getlabels_slot s)"
    by (simp add: getlabels_slot_def split_takeWhile [of "CHR ''|''" s])
  with False show ?thesis by simp
next
  case True
  then have hd: "hd (takeWhile (\<lambda>c. c \<noteq> CHR ''|'') s) = hd s"
    by (cases s) (auto split: if_splits)
  have o: "ord_str (takeWhile (\<lambda>c. c \<noteq> CHR ''|'') s) = Inr (ord (hd s))"
    using ord_str_single [OF True] hd by simp
  let ?n = "if 16 \<le> ord (hd s) then ord (hd s) - 6 else ord (hd s)"
  show ?thesis
  proof (cases "1 \<le> ?n \<and> ?n \<le> 12")
    case inr: True
    show ?thesis
    proof (cases "CHR ''|'' \<in> set s")
      case bar: True
      obtain d1 ds where "split CHR ''|'' (tl (dropWhile (\<lambda>c. c \<noteq> CHR ''|'') s)) = d1 # ds"
        using split_not_Nil [of "CHR ''|''" "tl (dropWhile (\<lambda>c. c \<noteq> CHR ''|'') s)"]
        by (cases "split CHR ''|'' (tl (dropWhile (\<lambda>c. c \<noteq> CHR ''|'') s))") auto
      then have "\<not> isl (getlabels_slot s)"
        using inr bar o Slot_init_in_range [of ?n d1]
        by (cases "Slot_init ?n d1")
           (simp_all add: getlabels_slot_def split_takeWhile [of "CHR ''|''" s] Let_def
              split del: if_split)
      with True bar show ?thesis by simp
    next
      case nobar: False
      then have "isl (getlabels_slot s)"
        using inr o
        by (simp add: getlabels_slot_def split_takeWhile [of "CHR ''|''" s] Let_def
            split del: if_split)
      with True nobar inr show ?thesis by simp
    qed
  next
    case outr: False
    then have "\<not> 1 \<le> ?n \<or> \<not> ?n \<le> 12"
      by blast
    then have "\<not> isl (getlabels_slot s)"
      using o by (elim disjE)
        (simp_all add: getlabels_slot_def split_takeWhile [of "CHR ''|''" s] Let_def
          split del: if_split)
    with True outr show ?thesis by simp
  qed
qed


lemma labels_loop_ok_iff:
  "(\<not> isl (labels_loop parse n slots ok))
     = (\<forall>i<n. \<not> isl (parse (map chr (filter (\<lambda>b. b \<noteq> 0) (take 64 (incoming ok i))))))"
proof (induction n arbitrary: slots ok)
  case 0
  show ?case by simp
next
  case (Suc n)
  let ?response = "\<lambda>ok i. map chr (filter (\<lambda>b. b \<noteq> 0) (take 64 (incoming ok i)))"
  have r: "read_string ok = (?response ok 0, snd (read_string ok))"
    using read_string_fst [of ok] by (simp add: prod_eq_iff)
  have sh: "?response (snd (read_string ok)) i = ?response ok (Suc i)" for i
    by (simp add: read_string_snd)
  have "(\<not> isl (labels_loop parse (Suc n) slots ok))
          = (\<not> isl (parse (?response ok 0)) \<and> (\<forall>i<n. \<not> isl (parse (?response ok (Suc i)))))"
  proof (cases "parse (?response ok 0)")
    case (Inl e)
    then show ?thesis
      by (subst labels_loop.simps, subst r) simp
  next
    case (Inr v)
    then show ?thesis
      by (subst labels_loop.simps, subst r) (cases v; simp add: Suc.IH sh)
  qed
  then show ?case
    by (simp add: All_less_Suc2)
qed

lemma getlabels_ok_iff:
  "(\<not> isl (getlabels ok))
     = (\<forall>i<12. \<not> isl (getlabels_slot (map chr (filter (\<lambda>b. b \<noteq> 0) (take 64 (incoming ok i))))))"
  by (simp add: getlabels_def send_message_falsy labels_loop_ok_iff)


text \<open>
  C10, as the code has it. \<open>getlabels\<close> returns normally exactly when each of its 12
  reads yields a string that has exactly one character before its first \<open>|\<close> (before its
  end, when it has no \<open>|\<close>) and that either has a \<open>|\<close> or has a slot number, after the
  remap, outside 1 to 12. So a read of zero bytes raises, and a string without \<open>|\<close>
  raises unless it is a single character with a slot number out of range, which is
  skipped.
\<close>

theorem getlabels_returns_iff:
  "(\<not> isl (getlabels ok))
     = (\<forall>i<12. let s = map chr (filter (\<lambda>b. b \<noteq> 0) (take 64 (incoming ok i))) in
          length (takeWhile (\<lambda>c. c \<noteq> CHR ''|'') s) = 1
          \<and> (CHR ''|'' \<notin> set s \<longrightarrow>
               \<not> (1 \<le> (if 16 \<le> ord (hd s) then ord (hd s) - 6 else ord (hd s))
                  \<and> (if 16 \<le> ord (hd s) then ord (hd s) - 6 else ord (hd s)) \<le> 12)))"
  by (simp only: getlabels_ok_iff getlabels_slot_ok_iff Let_def)

lemma chr_65: "chr 65 = CHR ''A''"
  by code_simp

theorem getlabels_returns_iff_witness:
  "\<not> isl (getlabels (device (replicate 12 [65]) None))"
  using getlabels_returns_iff [of "device (replicate 12 [65]) None"]
  by (simp add: device_def reports_of_def chr_65 ord_def)

text \<open>
  C10 as stated fails when the second of the 12 reads yields the string \<open>A\<close>, which
  has no \<open>|\<close>: \<open>getlabels\<close> skips it, as it does the ten after it, and returns the slot
  of the first response.
\<close>

theorem getlabels_skips_counterexample:
  "fst (read_string (snd (read_string (device ([1, 124, 97] # replicate 11 [65]) None)))) = ''A''
   \<and> map_sum id (map number \<circ> fst) (getlabels (device ([1, 124, 97] # replicate 11 [65]) None)) = Inr [1]"
  by code_simp

section \<open>Collecting the parts of a response\<close>

lemma read_bytes_str_fst: "fst (read_bytes_str 64 ok) = map chr (take 64 (incoming ok 0))"
  by (simp add: read_bytes_str_def hid_read_def)

lemma read_bytes_str_snd: "snd (read_bytes_str 64 ok) = ok\<lparr>incoming := (\<lambda>k. incoming ok (Suc k))\<rparr>"
  by (simp add: read_bytes_str_def hid_read_def)

lemma read_bytes_str_empty: "(fst (read_bytes_str 64 ok) = []) = (incoming ok 0 = [])"
  by (simp add: read_bytes_str_fst)

lemma read_first_Some_reads:
  assumes "read_first ok = Some r"
  shows "\<exists>k. incoming ok k \<noteq> []"
proof (rule read_first.raw_induct [where P = "\<lambda>ok r. \<exists>k. incoming ok k \<noteq> []", OF _ assms])
  fix f :: "onlykey \<Rightarrow> (string \<times> onlykey) option" and ok' r'
  assume IH: "\<And>x y. f x = Some y \<Longrightarrow> \<exists>k. incoming x k \<noteq> []"
    and step: "(let r = read_bytes_str 64 ok' in if fst r = [] then f (snd r) else Some r) = Some r'"
  show "\<exists>k. incoming ok' k \<noteq> []"
  proof (cases "incoming ok' 0 = []")
    case True
    then have "f (snd (read_bytes_str 64 ok')) = Some r'"
      using step by (simp add: Let_def read_bytes_str_empty)
    then obtain k where "incoming (snd (read_bytes_str 64 ok')) k \<noteq> []"
      using IH by blast
    then have "incoming ok' (Suc k) \<noteq> []"
      by (simp add: read_bytes_str_snd)
    then show ?thesis by blast
  next
    case False
    then show ?thesis by blast
  qed
qed

lemma read_first_terminates:
  assumes "incoming ok k \<noteq> []"
  shows "\<exists>r. read_first ok = Some r"
  using assms
proof (induction k arbitrary: ok)
  case 0
  then show ?case
    by (subst read_first.simps) (simp add: Let_def read_bytes_str_empty)
next
  case (Suc k)
  show ?case
  proof (cases "incoming ok 0 = []")
    case True
    have "incoming (snd (read_bytes_str 64 ok)) k \<noteq> []"
      using Suc.prems by (simp add: read_bytes_str_snd)
    then obtain r where "read_first (snd (read_bytes_str 64 ok)) = Some r"
      using Suc.IH by blast
    then show ?thesis
      using True by (subst read_first.simps) (simp add: Let_def read_bytes_str_empty)
  next
    case False
    then show ?thesis
      by (subst read_first.simps) (simp add: Let_def read_bytes_str_empty)
  qed
qed

lemma read_first_None_iff: "(read_first ok = None) = (\<forall>k. incoming ok k = [])"
  using read_first_Some_reads [of ok] read_first_terminates [of ok]
  by (cases "read_first ok") auto

lemma read_parts_None_iff: "(read_parts ok = None) = (\<forall>k. incoming ok k = [])"
  by (simp add: read_parts_def read_first_None_iff [symmetric] split_def Let_def split: option.splits)


lemma read_parts_Some_iff:
  "(\<exists>a b. read_parts ok = Some (a, b)) = (\<exists>k. incoming ok k \<noteq> [])"
  using read_parts_None_iff [of ok] by (cases "read_parts ok") auto

lemma send_large_message2_str:
  assumes "s = [] \<or> 0 \<le> sn \<and> sn < 256"
  shows "\<exists>rs. send_large_message2 (PStr s) (Some m) sn ok = Inr (ok\<lparr>written := written ok @ rs\<rparr>)"
proof -
  let ?cs = "map (\<lambda>x. PStr (slice s x (x + (MAX_LARGE_PAYLOAD_SIZE - 1)))) (xrange 0 (length s) 57)"
  let ?f = "\<lambda>c. case c of PStr t \<Rightarrow> (if length t < 57 then [sn, int (length t)] else [sn, 255]) @ map ord t | _ \<Rightarrow> []"
  have "\<forall>c \<in> set ?cs. current_payload2 sn c = Inr (?f c) \<and> (\<forall>b\<in>set (?f c). 0 \<le> b \<and> b < 256)"
  proof (cases "s = []")
    case True
    then show ?thesis
      by (simp add: xrange_Nil)
  next
    case False
    then have "0 \<le> sn \<and> sn < 256"
      using assms by simp
    then show ?thesis
      using ord_bounds by (auto simp: current_payload2_def)
  qed
  then have "send_chunks (current_payload2 sn) ?cs (Some m) ok =
    Inr (ok\<lparr>written := written ok @ map (\<lambda>c. pad (header_bytes (Some m) None None @ ?f c)) ?cs\<rparr>)"
    by (rule send_chunks_written)
  then have "send_large_message2 (PStr s) (Some m) sn ok =
    Inr (ok\<lparr>written := written ok @ map (\<lambda>c. pad (header_bytes (Some m) None None @ ?f c)) ?cs\<rparr>)"
    by (simp add: send_large_message2_def)
  then show ?thesis
    by blast
qed

lemma send_large_message2_slot_out_of_range:
  assumes "s \<noteq> []" and "\<not> (0 \<le> sn \<and> sn < 256)"
  shows "send_large_message2 (PStr s) (Some m) sn ok = Inl ValueError"
proof -
  have x: "xrange 0 (length s) 57 = 0 # xrange 57 (length s) 57"
    using assms(1) xrange_Cons [of 57 0 "length s"] by simp
  obtain cp where cp: "current_payload2 sn (PStr (slice s 0 57)) = Inr (sn # cp)"
    by (cases "length (slice s 0 57) < 57") (simp_all add: current_payload2_def)
  have "chr_join (sn # cp) = Inl ValueError"
    using assms(2) by (intro chr_join_out_of_range) auto
  then have "send_message (PList (sn # cp)) (Some m) None None ok = Inl ValueError"
    by (simp add: send_message_def)
  then show ?thesis
    using cp by (simp add: send_large_message2_def x MAX_LARGE_PAYLOAD_SIZE_def)
qed


lemma all_less_7: "(\<forall>i<7. P i) = (P 0 \<and> P 1 \<and> P 2 \<and> P 3 \<and> P 4 \<and> P 5 \<and> P (6::nat))"
proof -
  have "(i < 7) = (i = 0 \<or> i = 1 \<or> i = 2 \<or> i = 3 \<or> i = 4 \<or> i = 5 \<or> i = 6)" for i :: nat
    by arith
  then show ?thesis
    by auto
qed

lemma all_less_8: "(\<forall>i<8. P i) = (P 0 \<and> P 1 \<and> P 2 \<and> P 3 \<and> P 4 \<and> P 5 \<and> P 6 \<and> P (7::nat))"
proof -
  have "(i < 8) = (i = 0 \<or> i = 1 \<or> i = 2 \<or> i = 3 \<or> i = 4 \<or> i = 5 \<or> i = 6 \<or> i = 7)" for i :: nat
    by arith
  then show ?thesis
    by auto
qed

lemma read_first_spec:
  assumes "read_first ok = Some r"
  shows "\<exists>k. (\<forall>j<k. incoming ok j = []) \<and> incoming ok k \<noteq> []
           \<and> fst r = map chr (take 64 (incoming ok k))
           \<and> snd r = ok\<lparr>incoming := \<lambda>i. incoming ok (i + Suc k)\<rparr>"
proof (rule read_first.raw_induct
    [where P = "\<lambda>ok r. \<exists>k. (\<forall>j<k. incoming ok j = []) \<and> incoming ok k \<noteq> []
           \<and> fst r = map chr (take 64 (incoming ok k))
           \<and> snd r = ok\<lparr>incoming := \<lambda>i. incoming ok (i + Suc k)\<rparr>", OF _ assms])
  fix f :: "onlykey \<Rightarrow> (string \<times> onlykey) option" and ok' r'
  assume IH: "\<And>x y. f x = Some y \<Longrightarrow> \<exists>k. (\<forall>j<k. incoming x j = []) \<and> incoming x k \<noteq> []
           \<and> fst y = map chr (take 64 (incoming x k))
           \<and> snd y = x\<lparr>incoming := \<lambda>i. incoming x (i + Suc k)\<rparr>"
    and step: "(let r = read_bytes_str 64 ok' in if fst r = [] then f (snd r) else Some r) = Some r'"
  show "\<exists>k. (\<forall>j<k. incoming ok' j = []) \<and> incoming ok' k \<noteq> []
           \<and> fst r' = map chr (take 64 (incoming ok' k))
           \<and> snd r' = ok'\<lparr>incoming := \<lambda>i. incoming ok' (i + Suc k)\<rparr>"
  proof (cases "incoming ok' 0 = []")
    case True
    let ?x = "ok'\<lparr>incoming := \<lambda>k. incoming ok' (Suc k)\<rparr>"
    have "f ?x = Some r'"
      using step True by (simp add: Let_def read_bytes_str_empty read_bytes_str_snd)
    then obtain k where k: "\<forall>j<k. incoming ?x j = []" "incoming ?x k \<noteq> []"
        "fst r' = map chr (take 64 (incoming ?x k))"
        "snd r' = ?x\<lparr>incoming := \<lambda>i. incoming ?x (i + Suc k)\<rparr>"
      using IH by blast
    have "\<forall>j<Suc k. incoming ok' j = []"
      using k(1) True by (auto simp: less_Suc_eq_0_disj)
    moreover have "incoming ok' (Suc k) \<noteq> []"
      using k(2) by simp
    moreover have "fst r' = map chr (take 64 (incoming ok' (Suc k)))"
      using k(3) by simp
    moreover have "snd r' = ok'\<lparr>incoming := \<lambda>i. incoming ok' (i + Suc (Suc k))\<rparr>"
      using k(4) by simp
    ultimately show ?thesis
      by blast
  next
    case False
    then have "r' = read_bytes_str 64 ok'"
      using step by (simp add: Let_def read_bytes_str_empty)
    then have "fst r' = map chr (take 64 (incoming ok' 0))"
      and "snd r' = ok'\<lparr>incoming := \<lambda>i. incoming ok' (i + Suc 0)\<rparr>"
      by (simp_all add: read_bytes_str_fst read_bytes_str_snd)
    then show ?thesis
      using False by blast
  qed
qed

lemma read_part_spec:
  "0 < n \<Longrightarrow> \<exists>f<n. read_part n p ok
       = (map chr (take 64 (incoming ok f)), ok\<lparr>incoming := \<lambda>i. incoming ok (i + Suc f)\<rparr>)
     \<and> (\<forall>j<f. length (take 64 (incoming ok j)) \<noteq> 64)
     \<and> (Suc f < n \<longrightarrow> length (take 64 (incoming ok f)) = 64)"
proof (induction n arbitrary: p ok)
  case 0
  then show ?case by simp
next
  case (Suc n)
  let ?x = "ok\<lparr>incoming := \<lambda>k. incoming ok (Suc k)\<rparr>"
  have rd: "read_bytes_str 64 ok = (map chr (take 64 (incoming ok 0)), ?x)"
    using read_bytes_str_fst [of ok] read_bytes_str_snd [of ok] by (simp add: prod_eq_iff)
  show ?case
  proof (cases "length (take 64 (incoming ok 0)) = 64")
    case True
    then have "read_part (Suc n) p ok = (map chr (take 64 (incoming ok 0)), ok\<lparr>incoming := \<lambda>i. incoming ok (i + Suc 0)\<rparr>)"
      by (simp add: rd)
    then show ?thesis
      using True by (intro exI [of _ 0]) simp
  next
    case short: False
    show ?thesis
    proof (cases n)
      case 0
      then have "read_part (Suc n) p ok = (map chr (take 64 (incoming ok 0)), ok\<lparr>incoming := \<lambda>i. incoming ok (i + Suc 0)\<rparr>)"
        using short by (simp add: rd)
      then show ?thesis
        using 0 by (intro exI [of _ 0]) simp
    next
      case (Suc m)
      then obtain f where f: "f < n"
        "read_part n (map chr (take 64 (incoming ok 0))) ?x
           = (map chr (take 64 (incoming ?x f)), ?x\<lparr>incoming := \<lambda>i. incoming ?x (i + Suc f)\<rparr>)"
        "\<forall>j<f. length (take 64 (incoming ?x j)) \<noteq> 64"
        "Suc f < n \<longrightarrow> length (take 64 (incoming ?x f)) = 64"
        using Suc.IH [of "map chr (take 64 (incoming ok 0))" ?x] by auto
      have unf: "read_part (Suc n) p ok = read_part n (map chr (take 64 (incoming ok 0))) ?x"
        using short by (simp only: read_part.simps rd Let_def prod.case length_map if_False)
      have "read_part n (map chr (take 64 (incoming ok 0))) ?x = (map chr (take 64 (incoming ok (Suc f))),
           ok\<lparr>incoming := \<lambda>i. incoming ok (i + Suc (Suc f))\<rparr>)"
        using f(2) by simp
      then have "read_part (Suc n) p ok = (map chr (take 64 (incoming ok (Suc f))),
           ok\<lparr>incoming := \<lambda>i. incoming ok (i + Suc (Suc f))\<rparr>)"
        by (simp only: unf)
      moreover have "\<forall>j<Suc f. length (take 64 (incoming ok j)) \<noteq> 64"
        using f(3) short by (auto simp: less_Suc_eq_0_disj)
      moreover have "Suc (Suc f) < Suc n \<longrightarrow> length (take 64 (incoming ok (Suc f))) = 64"
        using f(4) by simp
      ultimately show ?thesis
        using f(1) by (intro exI [of _ "Suc f"]) simp
    qed
  qed
qed

lemma read_part_at:
  "\<exists>e. c \<le> e \<and> e < c + 10
     \<and> read_part 10 p (ok\<lparr>incoming := \<lambda>i. incoming ok (i + c)\<rparr>)
         = (map chr (take 64 (incoming ok e)), ok\<lparr>incoming := \<lambda>i. incoming ok (i + Suc e)\<rparr>)
     \<and> (\<forall>j. c \<le> j \<and> j < e \<longrightarrow> length (take 64 (incoming ok j)) \<noteq> 64)
     \<and> (e < c + 9 \<longrightarrow> length (take 64 (incoming ok e)) = 64)"
proof -
  let ?x = "ok\<lparr>incoming := \<lambda>i. incoming ok (i + c)\<rparr>"
  obtain f where f: "f < 10"
    "read_part 10 p ?x = (map chr (take 64 (incoming ?x f)), ?x\<lparr>incoming := \<lambda>i. incoming ?x (i + Suc f)\<rparr>)"
    "\<forall>j<f. length (take 64 (incoming ?x j)) \<noteq> 64"
    "Suc f < 10 \<longrightarrow> length (take 64 (incoming ?x f)) = 64"
    using read_part_spec [of 10 p ?x] by auto
  have "read_part 10 p ?x
         = (map chr (take 64 (incoming ok (f + c))), ok\<lparr>incoming := \<lambda>i. incoming ok (i + Suc (f + c))\<rparr>)"
    using f(2) by (simp add: add.assoc)
  moreover have "\<forall>j. c \<le> j \<and> j < f + c \<longrightarrow> length (take 64 (incoming ok j)) \<noteq> 64"
  proof (intro allI impI)
    fix j assume j: "c \<le> j \<and> j < f + c"
    then have "j - c < f" by arith
    then have "length (take 64 (incoming ?x (j - c))) \<noteq> 64"
      using f(3) by blast
    then show "length (take 64 (incoming ok j)) \<noteq> 64"
      using j by simp
  qed
  moreover have "f + c < c + 9 \<longrightarrow> length (take 64 (incoming ok (f + c))) = 64"
    using f(4) by simp
  moreover have "c \<le> f + c" "f + c < c + 10"
    using f(1) by simp_all
  ultimately show ?thesis
    by blast
qed


lemma read_part_after:
  "\<exists>e. b < e \<and> e \<le> b + 10
     \<and> read_part 10 p (ok\<lparr>incoming := \<lambda>i. incoming ok (i + Suc b)\<rparr>)
         = (map chr (take 64 (incoming ok e)), ok\<lparr>incoming := \<lambda>i. incoming ok (i + Suc e)\<rparr>)
     \<and> (\<forall>j. b < j \<and> j < e \<longrightarrow> length (take 64 (incoming ok j)) \<noteq> 64)
     \<and> (e < b + 10 \<longrightarrow> length (take 64 (incoming ok e)) = 64)"
proof -
  obtain e where e: "Suc b \<le> e" "e < Suc b + 10"
    "read_part 10 p (ok\<lparr>incoming := \<lambda>i. incoming ok (i + Suc b)\<rparr>)
         = (map chr (take 64 (incoming ok e)), ok\<lparr>incoming := \<lambda>i. incoming ok (i + Suc e)\<rparr>)"
    "\<forall>j. Suc b \<le> j \<and> j < e \<longrightarrow> length (take 64 (incoming ok j)) \<noteq> 64"
    "e < Suc b + 9 \<longrightarrow> length (take 64 (incoming ok e)) = 64"
    using read_part_at [of "Suc b" p ok] by blast
  have "b < e" "e \<le> b + 10"
    using e(1,2) by simp_all
  moreover have "\<forall>j. b < j \<and> j < e \<longrightarrow> length (take 64 (incoming ok j)) \<noteq> 64"
    using e(4) by (simp add: Suc_le_eq)
  moreover have "e < b + 10 \<longrightarrow> length (take 64 (incoming ok e)) = 64"
    using e(5) by simp
  ultimately show ?thesis
    using e(3) by blast
qed

lemma read_parts_spec:
  assumes "read_parts ok = Some (parts, ok')"
  shows "\<exists>es. length es = 8 \<and> length parts = 8
      \<and> (\<forall>j<es ! 0. incoming ok j = []) \<and> incoming ok (es ! 0) \<noteq> []
      \<and> (\<forall>i<8. parts ! i = map chr (take 64 (incoming ok (es ! i))))
      \<and> (\<forall>i<7. es ! i < es ! Suc i \<and> es ! Suc i \<le> es ! i + 10
             \<and> (\<forall>j. es ! i < j \<and> j < es ! Suc i \<longrightarrow> length (take 64 (incoming ok j)) \<noteq> 64)
             \<and> (es ! Suc i < es ! i + 10 \<longrightarrow> length (take 64 (incoming ok (es ! Suc i))) = 64))
      \<and> ok' = ok\<lparr>incoming := \<lambda>i. incoming ok (i + Suc (es ! 7))\<rparr>"
proof -
  let ?rd = "\<lambda>e. map chr (take 64 (incoming ok e))"
  let ?at = "\<lambda>e. ok\<lparr>incoming := \<lambda>i. incoming ok (i + Suc e)\<rparr>"
  let ?short = "\<lambda>b e. \<forall>j. b < j \<and> j < e \<longrightarrow> length (take 64 (incoming ok j)) \<noteq> 64"
  let ?full = "\<lambda>b e. e < b + 10 \<longrightarrow> length (take 64 (incoming ok e)) = 64"
  obtain r where r: "read_first ok = Some r"
    using assms by (cases "read_first ok") (simp_all add: read_parts_def)
  obtain k where k: "\<forall>j<k. incoming ok j = []" "incoming ok k \<noteq> []"
    and r1: "fst r = ?rd k" "snd r = ?at k"
    using read_first_spec [OF r] by blast
  have first: "read_first ok = Some (?rd k, ?at k)"
    using r r1 by (simp add: prod_eq_iff)
  obtain e2 where e2: "k < e2" "e2 \<le> k + 10" "read_part 10 [] (?at k) = (?rd e2, ?at e2)"
    "?short k e2" "?full k e2"
    using read_part_after [of k "[]" ok] by blast
  obtain e3 where e3: "e2 < e3" "e3 \<le> e2 + 10" "read_part 10 [] (?at e2) = (?rd e3, ?at e3)"
    "?short e2 e3" "?full e2 e3"
    using read_part_after [of e2 "[]" ok] by blast
  obtain e4 where e4: "e3 < e4" "e4 \<le> e3 + 10" "read_part 10 [] (?at e3) = (?rd e4, ?at e4)"
    "?short e3 e4" "?full e3 e4"
    using read_part_after [of e3 "[]" ok] by blast
  obtain e5 where e5: "e4 < e5" "e5 \<le> e4 + 10" "read_part 10 [] (?at e4) = (?rd e5, ?at e5)"
    "?short e4 e5" "?full e4 e5"
    using read_part_after [of e4 "[]" ok] by blast
  obtain e6 where e6: "e5 < e6" "e6 \<le> e5 + 10" "read_part 10 [] (?at e5) = (?rd e6, ?at e6)"
    "?short e5 e6" "?full e5 e6"
    using read_part_after [of e5 "[]" ok] by blast
  obtain e7 where e7: "e6 < e7" "e7 \<le> e6 + 10" "read_part 10 [] (?at e6) = (?rd e7, ?at e7)"
    "?short e6 e7" "?full e6 e7"
    using read_part_after [of e6 "[]" ok] by blast
  obtain e8 where e8: "e7 < e8" "e8 \<le> e7 + 10" "read_part 10 [] (?at e7) = (?rd e8, ?at e8)"
    "?short e7 e8" "?full e7 e8"
    using read_part_after [of e7 "[]" ok] by blast
  have "read_parts ok = Some ([?rd k, ?rd e2, ?rd e3, ?rd e4, ?rd e5, ?rd e6, ?rd e7, ?rd e8], ?at e8)"
    unfolding read_parts_def first option.case prod.case e2(3) e3(3) e4(3) e5(3) e6(3) e7(3) e8(3) Let_def ..
  then have res: "parts = [?rd k, ?rd e2, ?rd e3, ?rd e4, ?rd e5, ?rd e6, ?rd e7, ?rd e8]" "ok' = ?at e8"
    using assms by simp_all
  let ?es = "[k, e2, e3, e4, e5, e6, e7, e8]"
  have "length ?es = 8" "length parts = 8"
    by (simp_all add: res)
  moreover have "\<forall>j<?es ! 0. incoming ok j = []" "incoming ok (?es ! 0) \<noteq> []"
    using k by simp_all
  moreover have "\<forall>i<8. parts ! i = ?rd (?es ! i)"
    unfolding all_less_8 res by simp
  moreover have "\<forall>i<7. ?es ! i < ?es ! Suc i \<and> ?es ! Suc i \<le> ?es ! i + 10
             \<and> ?short (?es ! i) (?es ! Suc i) \<and> ?full (?es ! i) (?es ! Suc i)"
    unfolding all_less_7
    using e2(1,2,4,5) e3(1,2,4,5) e4(1,2,4,5) e5(1,2,4,5) e6(1,2,4,5) e7(1,2,4,5) e8(1,2,4,5)
    by simp
  moreover have "ok' = ?at (?es ! 7)"
    by (simp add: res)
  ultimately show ?thesis
    by blast
qed


lemma sign_None_iff:
  "(sign sha256 stdin h ok = None)
     = (length (sha256 h) = 32
        \<and> (\<exists>sn. slotnum ok = Some sn \<and> (h = [] \<or> 0 \<le> sn \<and> sn < 256))
        \<and> (stdin = NoInput \<or> (\<exists>line. stdin = Entered line) \<and> (\<forall>k. incoming ok (Suc k) = [])))"
proof (cases "length (sha256 h) = 32")
  case False
  then show ?thesis
    by (simp add: sign_def challenge_def Let_def)
next
  case len: True
  show ?thesis
  proof (cases "slotnum ok")
    case None
    then show ?thesis
      using len by (simp add: sign_def challenge_def Let_def read_string_snd)
  next
    case (Some sn)
    show ?thesis
    proof (cases "h = [] \<or> 0 \<le> sn \<and> sn < 256")
      case False
      then have "send_large_message2 (PStr h) (Some OKSIGNCHALLENGE) sn (snd (read_string ok))
          = Inl ValueError"
        by (intro send_large_message2_slot_out_of_range) simp_all
      then show ?thesis
        using len Some False by (auto simp add: sign_def challenge_def Let_def read_string_snd)
    next
      case True
      then obtain rs where "send_large_message2 (PStr h) (Some OKSIGNCHALLENGE) sn (snd (read_string ok))
          = Inr ((snd (read_string ok))\<lparr>written := written (snd (read_string ok)) @ rs\<rparr>)"
        using send_large_message2_str by blast
      then show ?thesis
        using len Some True
        by (cases stdin)
          (simp_all add: sign_def challenge_def Let_def read_string_snd read_parts_None_iff
            read_parts_Some_iff split: option.splits prod.splits)
    qed
  qed
qed

lemma getpub_None_iff:
  "(getpub ok = None)
     = ((\<exists>sn. slotnum ok = Some sn \<and> 0 \<le> sn \<and> sn < 256) \<and> (\<forall>k. incoming ok (Suc k) = []))"
proof (cases "slotnum ok")
  case None
  then show ?thesis
    by (simp add: getpub_def Let_def read_string_snd)
next
  case (Some sn)
  show ?thesis
  proof (cases "0 \<le> sn \<and> sn < 256")
    case False
    then show ?thesis
      using Some by (auto simp add: getpub_def Let_def read_string_snd chr_int_def)
  next
    case True
    have "send_message (PStr [char_of sn]) (Some OKGETPUBKEY) None None (snd (read_string ok))
       = Inr ((snd (read_string ok))\<lparr>written := written (snd (read_string ok))
           @ [pad (header_bytes (Some OKGETPUBKEY) None None @ map ord [char_of sn])]\<rparr>)"
      by (rule send_message_str)
    then show ?thesis
      using Some True
      by (simp add: getpub_def Let_def read_string_snd chr_int_def read_parts_None_iff
          read_parts_Some_iff split: option.splits prod.splits)
  qed
qed

text \<open>
  C7, as the code has it. The first part is polled without a bound: the collection
  returns exactly when some read is not empty, and the first part is then the first
  read that is not empty. Each of the parts 2 to 8 is read at least once and at most 10
  times: it is the first read of 64 bytes among the 10 reads after the part before it,
  or the tenth of them when none has 64 bytes (\<open>es\<close> are the indices of the reads
  that became the eight parts). So \<open>sign\<close> and \<open>getpub\<close> fail to return exactly when
  they get as far as the collection and every read after the first one, which
  flushes, is empty; \<open>sign\<close> also when the operator never answers \<open>raw_input()\<close>.
  They get that far with \<open>slotnum\<close> set, for \<open>getpub\<close> to a value in \<open>range(256)\<close>,
  for \<open>sign\<close> with a digest of 32 bytes and, unless the hash is empty, \<open>slotnum\<close> in
  \<open>range(256)\<close>.
\<close>

theorem collection_returns_iff:
  "(read_parts ok = None) = (\<forall>k. incoming ok k = [])
   \<and> (read_parts ok = Some (parts, ok') \<longrightarrow>
        (\<exists>es. length es = 8 \<and> length parts = 8
          \<and> (\<forall>j<es ! 0. incoming ok j = []) \<and> incoming ok (es ! 0) \<noteq> []
          \<and> (\<forall>i<8. parts ! i = map chr (take 64 (incoming ok (es ! i))))
          \<and> (\<forall>i<7. es ! i < es ! Suc i \<and> es ! Suc i \<le> es ! i + 10
                 \<and> (\<forall>j. es ! i < j \<and> j < es ! Suc i \<longrightarrow>
                        length (take 64 (incoming ok j)) \<noteq> 64)
                 \<and> (es ! Suc i < es ! i + 10 \<longrightarrow>
                        length (take 64 (incoming ok (es ! Suc i))) = 64))
          \<and> ok' = ok\<lparr>incoming := \<lambda>i. incoming ok (i + Suc (es ! 7))\<rparr>))
   \<and> (sign sha256 stdin h ok = None)
     = (length (sha256 h) = 32
        \<and> (\<exists>sn. slotnum ok = Some sn \<and> (h = [] \<or> 0 \<le> sn \<and> sn < 256))
        \<and> (stdin = NoInput \<or> (\<exists>line. stdin = Entered line) \<and> (\<forall>k. incoming ok (Suc k) = [])))
   \<and> (getpub ok = None)
     = ((\<exists>sn. slotnum ok = Some sn \<and> 0 \<le> sn \<and> sn < 256) \<and> (\<forall>k. incoming ok (Suc k) = []))"
  using read_parts_None_iff [of ok] read_parts_spec [of ok parts ok']
    sign_None_iff [of sha256 stdin h ok] getpub_None_iff [of ok]
  by blast

lemma reports_of_Nil: "reports_of [] k = []"
  by (simp add: reports_of_def)

theorem collection_returns_iff_witness:
  "read_parts (device [[], [], [1]] (Some 1)) \<noteq> None
   \<and> sign sevens (Entered []) ''abc'' (device [[], [], [1]] (Some 1)) \<noteq> None
   \<and> getpub (device [[], [], [1]] (Some 1)) \<noteq> None"
proof -
  have "incoming (device [[], [], [1]] (Some 1)) (Suc 1) \<noteq> []"
    by (simp add: device_def reports_of_def)
  then have "\<not> (\<forall>k. incoming (device [[], [], [1]] (Some 1)) (Suc k) = [])"
    and "\<not> (\<forall>k. incoming (device [[], [], [1]] (Some 1)) k = [])"
    by blast+
  then show ?thesis
    using collection_returns_iff [of "device [[], [], [1]] (Some 1)" "[]" "device [] None"
        sevens "Entered []" "''abc''"]
    by simp
qed

text \<open>
  C7 as the specification states it fails for a transport that never delivers a
  report: the loop for the first part never ends, and neither \<open>sign\<close>, once the
  operator has answered, nor \<open>getpub\<close> returns.
\<close>

theorem collection_silent_device_counterexample:
  "read_parts (device [] (Some 1)) = None
   \<and> sign sevens (Entered []) ''abc'' (device [] (Some 1)) = None
   \<and> getpub (device [] (Some 1)) = None"
  by (simp add: read_parts_None_iff sign_None_iff getpub_None_iff sevens_def device_def
      reports_of_Nil)

section \<open>Chunks of the headerless sender\<close>

lemma xrange_length:
  "0 < step \<Longrightarrow> length (xrange start stop step) = (stop - start + step - 1) div step"
proof (induction start stop step rule: xrange.induct)
  case (1 start stop step)
  show ?case
  proof (cases "start < stop")
    case False
    then show ?thesis
      using "1.prems" by (simp add: xrange_Nil)
  next
    case True
    show ?thesis
    proof (cases "start + step \<le> stop")
      case le: True
      define d where "d = stop - (start + step)"
      have eq: "stop - start + step - 1 = (d + step - 1) + step"
        using le "1.prems" by (simp add: d_def)
      have "length (xrange start stop step) = Suc ((d + step - 1) div step)"
        using 1 True by (simp add: xrange_Cons d_def)
      also have "\<dots> = ((d + step - 1) + step) div step"
        using div_add_self2 [of step "d + step - 1"] "1.prems" by linarith
      finally show ?thesis
        by (simp only: eq)
    next
      case gt: False
      define e where "e = stop - start - 1"
      have e: "e < step" and eq: "stop - start + step - 1 = e + step"
        using gt True by (simp_all add: e_def)
      have "length (xrange start stop step) = 1"
        using gt True "1.prems" by (simp add: xrange_Cons xrange_Nil)
      moreover have "(e + step) div step = 1"
        using div_add_self2 [of step e] div_less [OF e] "1.prems" by linarith
      ultimately show ?thesis
        by (simp only: eq)
    qed
  qed
qed

lemma slice_concat:
  "0 < w \<Longrightarrow> concat (map (\<lambda>x. slice xs x (x + w)) (xrange start (length xs) w)) = drop start xs"
proof (induction start "length xs" w rule: xrange.induct)
  case (1 start step)
  show ?case
  proof (cases "start < length xs")
    case False
    then show ?thesis
      by (simp add: xrange_Nil)
  next
    case True
    have "take step (drop start xs) @ drop step (drop start xs) = drop start xs"
      by (rule append_take_drop_id)
    moreover have "drop step (drop start xs) = drop (start + step) xs"
      by (simp add: add.commute)
    ultimately have "take step (drop start xs) @ drop (start + step) xs = drop start xs"
      by simp
    moreover have "concat (map (\<lambda>x. slice xs x (x + step)) (xrange (start + step) (length xs) step))
        = drop (start + step) xs"
      using 1 True by simp
    ultimately show ?thesis
      using 1(2) True by (simp add: xrange_Cons slice_def)
  qed
qed

lemma xrange_not_last:
  "0 < step \<Longrightarrow> Suc i < length (xrange start stop step) \<Longrightarrow>
     xrange start stop step ! i + step < stop"
proof (induction start stop step arbitrary: i rule: xrange.induct)
  case (1 start stop step)
  have lt: "start < stop"
    using "1.prems" by (cases "start < stop") (simp_all add: xrange_Nil)
  then have unf: "xrange start stop step = start # xrange (start + step) stop step"
    using "1.prems" by (simp add: xrange_Cons)
  show ?case
  proof (cases i)
    case 0
    then have "xrange (start + step) stop step \<noteq> []"
      using "1.prems" unf by auto
    then have "start + step < stop"
      by (cases "start + step < stop") (simp_all add: xrange_Nil)
    then show ?thesis
      using 0 unf by simp
  next
    case (Suc j)
    then have "Suc j < length (xrange (start + step) stop step)"
      using "1.prems" unf by simp
    then have "xrange (start + step) stop step ! j + step < stop"
      using "1.IH" lt "1.prems" by simp
    then show ?thesis
      using Suc unf by simp
  qed
qed


lemma send_chunks_mapped:
  assumes "\<And>x. mk (g x) = Inr (f x)" and "\<And>x b. b \<in> set (f x) \<Longrightarrow> 0 \<le> b \<and> b < 256"
  shows "send_chunks mk (map g xs) msg ok =
    Inr (ok\<lparr>written := written ok @ map (\<lambda>x. pad (header_bytes msg None None @ f x)) xs\<rparr>)"
proof -
  have "\<forall>c \<in> set (map g xs). mk c = Inr ((\<lambda>c. projr (mk c)) c)
          \<and> (\<forall>b\<in>set ((\<lambda>c. projr (mk c)) c). 0 \<le> b \<and> b < 256)"
    using assms by auto
  then have "send_chunks mk (map g xs) msg ok =
    Inr (ok\<lparr>written := written ok
        @ map (\<lambda>c. pad (header_bytes msg None None @ projr (mk c))) (map g xs)\<rparr>)"
    by (rule send_chunks_written)
  then show ?thesis
    using assms(1) by (simp add: comp_def)
qed

lemma slice_map: "slice (map f xs) a b = map f (slice xs a b)"
  by (simp add: slice_def take_map drop_map)

lemma set_slice: "set (slice xs a b) \<subseteq> set xs"
  using set_take_subset set_drop_subset by (fastforce simp: slice_def)

lemma send_large_message_written:
  assumes "payload = PStr s \<and> bs = map ord s
           \<or> payload = PList bs \<and> (\<forall>c\<in>set bs. 0 \<le> c \<and> c < 256)"
  shows "send_large_message payload (Some m) slot_id ok =
    Inr (ok\<lparr>written := written ok @
      map (\<lambda>x. pad (header_bytes (Some m) None None
                    @ (if length (slice bs x (x + 58)) < 58 then [int (length (slice bs x (x + 58)))] else [255])
                    @ slice bs x (x + 58)))
          (xrange 0 (length bs) 58)\<rparr>)"
proof -
  let ?cp = "\<lambda>x. (if length (slice bs x (x + 58)) < 58 then [int (length (slice bs x (x + 58)))] else [255])
             @ slice bs x (x + 58)"
  have range: "\<forall>c\<in>set bs. 0 \<le> c \<and> c < 256"
    using assms ord_bounds by auto
  have cp_range: "0 \<le> b \<and> b < 256" if "b \<in> set (?cp x)" for x b
  proof -
    have "b \<in> set (slice bs x (x + 58)) \<or> b = 255
          \<or> (b = int (length (slice bs x (x + 58))) \<and> length (slice bs x (x + 58)) < 58)"
      using that by (auto split: if_splits)
    then show ?thesis
      using range set_slice [of bs x "x + 58"] by auto
  qed
  from assms show ?thesis
  proof (elim disjE conjE)
    assume p: "payload = PList bs"
    have "\<And>x. current_payload (PList (slice bs x (x + 58))) = Inr (?cp x)"
      by (simp add: current_payload_def)
    then have "send_chunks current_payload (map (\<lambda>x. PList (slice bs x (x + 58))) (xrange 0 (length bs) 58)) (Some m) ok
       = Inr (ok\<lparr>written := written ok @
            map (\<lambda>x. pad (header_bytes (Some m) None None @ ?cp x)) (xrange 0 (length bs) 58)\<rparr>)"
      using cp_range by (rule send_chunks_mapped)
    then show ?thesis
      using p by (simp add: send_large_message_def MAX_LARGE_PAYLOAD_SIZE_def)
  next
    assume p: "payload = PStr s" and bs: "bs = map ord s"
    have "\<And>x. current_payload (PStr (slice s x (x + 58))) = Inr (?cp x)"
      by (simp add: current_payload_def bs slice_map)
    then have "send_chunks current_payload (map (\<lambda>x. PStr (slice s x (x + 58))) (xrange 0 (length s) 58)) (Some m) ok
       = Inr (ok\<lparr>written := written ok @
            map (\<lambda>x. pad (header_bytes (Some m) None None @ ?cp x)) (xrange 0 (length s) 58)\<rparr>)"
      using cp_range by (rule send_chunks_mapped)
    then show ?thesis
      using p bs by (simp add: send_large_message_def MAX_LARGE_PAYLOAD_SIZE_def)
  qed
qed

text \<open>
  C4. For a payload of \<open>L\<close> bytes (the characters of a string, or the items of a list
  of integers in \<open>range(256)\<close>) and a message kind,
  \<open>send_large_message\<close> writes one report for each chunk, \<open>(L + 57) div 58\<close> of them,
  that is the ceiling of \<open>L / 58\<close>. The payload \<open>cp\<close> of each report, after the header
  and the message kind and before the padding, is a marker byte and then at most 58
  bytes: the marker is 255 when more chunks follow, and is the length of the chunk
  when the chunk is the last one and shorter than 58. The chunk payloads without their
  markers, concatenated in order, are the payload.
\<close>

theorem send_large_message_chunks:
  assumes "payload = PStr s \<and> bs = map of_char s
           \<or> payload = PList bs \<and> (\<forall>c\<in>set bs. 0 \<le> c \<and> c < 256)"
  shows "\<exists>cps.
      send_large_message payload (Some m) slot_id ok
        = Inr (ok\<lparr>written := written ok @
            map (\<lambda>cp. [255, 255, 255, 255, Message_value m] @ cp @ replicate (59 - length cp) 0) cps\<rparr>)
      \<and> length cps = (length bs + 57) div 58
      \<and> (\<forall>i<length cps.
            cps ! i \<noteq> [] \<and> length (tl (cps ! i)) \<le> 58
            \<and> (Suc i < length cps \<longrightarrow> hd (cps ! i) = 255)
            \<and> (Suc i = length cps \<and> length (tl (cps ! i)) < 58 \<longrightarrow>
                 hd (cps ! i) = int (length (tl (cps ! i)))))
      \<and> concat (map tl cps) = bs"
proof -
  define marker where
    "marker x = (if length (slice bs x (x + 58)) < 58 then int (length (slice bs x (x + 58))) else 255)" for x
  define cps where "cps = map (\<lambda>x. marker x # slice bs x (x + 58)) (xrange 0 (length bs) 58)"
  have len: "length cps = (length bs + 57) div 58"
    by (simp add: cps_def xrange_length)
  have rep: "pad (header_bytes (Some m) None None
                    @ (if length (slice bs x (x + 58)) < 58 then [int (length (slice bs x (x + 58)))] else [255])
                    @ slice bs x (x + 58))
      = [255, 255, 255, 255, Message_value m] @ (marker x # slice bs x (x + 58))
          @ replicate (59 - length (marker x # slice bs x (x + 58))) 0" for x
    by (simp add: pad_eq header_bytes_def MESSAGE_HEADER_def marker_def)
  have "(of_char :: char \<Rightarrow> int) = ord"
    by (simp add: ord_def fun_eq_iff)
  then have assms': "payload = PStr s \<and> bs = map ord s
           \<or> payload = PList bs \<and> (\<forall>c\<in>set bs. 0 \<le> c \<and> c < 256)"
    using assms by simp
  have wr: "send_large_message payload (Some m) slot_id ok
        = Inr (ok\<lparr>written := written ok @
            map (\<lambda>cp. [255, 255, 255, 255, Message_value m] @ cp @ replicate (59 - length cp) 0) cps\<rparr>)"
    unfolding send_large_message_written [OF assms'] cps_def map_map comp_def rep ..
  have cat: "concat (map tl cps) = bs"
    using slice_concat [of 58 bs 0] by (simp add: cps_def comp_def)
  have each: "cps ! i \<noteq> [] \<and> length (tl (cps ! i)) \<le> 58
            \<and> (Suc i < length cps \<longrightarrow> hd (cps ! i) = 255)
            \<and> (Suc i = length cps \<and> length (tl (cps ! i)) < 58 \<longrightarrow>
                 hd (cps ! i) = int (length (tl (cps ! i))))" if i: "i < length cps" for i
  proof -
    let ?x = "xrange 0 (length bs) 58 ! i"
    have nth: "cps ! i = marker ?x # slice bs ?x (?x + 58)"
      using i by (simp add: cps_def)
    have "hd (cps ! i) = 255" if "Suc i < length cps"
    proof -
      have "?x + 58 < length bs"
        using that by (intro xrange_not_last) (simp_all add: cps_def)
      then have "length (slice bs ?x (?x + 58)) = 58"
        by (simp add: slice_def)
      then show ?thesis
        by (simp add: nth marker_def)
    qed
    moreover have "hd (cps ! i) = int (length (tl (cps ! i)))" if "length (tl (cps ! i)) < 58"
      using that by (simp add: nth marker_def)
    moreover have "length (tl (cps ! i)) \<le> 58"
      by (simp add: nth slice_def)
    ultimately show ?thesis
      by (simp add: nth)
  qed
  from wr len each cat show ?thesis
    by blast
qed

lemma send_large_message_60:
  "map_sum id written (send_large_message (PList (replicate 60 1)) (Some OKSETPRIV) ''e'' (device [] None))
     = Inr [[255, 255, 255, 255, 239, 255] @ replicate 58 1,
            [255, 255, 255, 255, 239, 2, 1, 1] @ replicate 56 0]"
  by code_simp

theorem send_large_message_chunks_witness:
  "map_sum id written
        (send_large_message (PList (replicate 60 1)) (Some OKSETPRIV) ''e'' (device [] None))
     = Inr [[255, 255, 255, 255, 239, 255] @ replicate 58 1,
            [255, 255, 255, 255, 239, 2, 1, 1] @ replicate 56 0]
   \<and> (length (replicate 60 (1::int)) + 57) div 58 = 2"
  using send_large_message_chunks
      [of "PList (replicate 60 1)" "[]" "replicate 60 1" OKSETPRIV "''e''" "device [] None"]
    send_large_message_60
  by simp

end
